theory Spec2Isabelle
  imports Main "HOL-Library.Word" "HOL-Library.Multiset"
begin

unbundle bit_operations_syntax

section \<open>The data of worldrmi.h\<close>

text \<open>
  The embedding follows \<^verbatim>\<open>src/madness/world/worldrmi.h\<close>. A handler is referred to by
  a number (the function pointer), a rank by an integer, \<^verbatim>\<open>size_t\<close> values by naturals;
  the counter and attribute types keep their widths.
\<close>

type_synonym rmi_handlerT = nat
type_synonym ProcessID = int
type_synonym counterT = "16 word"
type_synonym attrT = "32 word"

text \<open>\<^verbatim>\<open>struct qmsg\<close>: one queued message; \<^verbatim>\<open>i\<close> is the index of its receive buffer.\<close>

record qmsg =
  len :: nat
  func :: rmi_handlerT
  i :: int
  src :: ProcessID
  attr :: attrT
  count :: counterT

text \<open>\<^verbatim>\<open>qmsg::operator<\<close> compares the counters and nothing else.\<close>

definition qmsg_less :: "qmsg \<Rightarrow> qmsg \<Rightarrow> bool" where
  "qmsg_less m other = (count m < count other)"

text \<open>\<^verbatim>\<open>struct RMIStats\<close> and its constructor.\<close>

record RMIStats =
  nmsg_sent :: "64 word"
  nbyte_sent :: "64 word"
  nmsg_recv :: "64 word"
  nbyte_recv :: "64 word"

definition RMIStats_init :: RMIStats where
  "RMIStats_init = \<lparr>nmsg_sent = 0, nbyte_sent = 0, nmsg_recv = 0, nbyte_recv = 0\<rparr>"

text \<open>The constants of \<^verbatim>\<open>class RMI\<close>.\<close>

definition ALIGNMENT :: nat where
  "ALIGNMENT = 64"

definition HEADER_LEN :: nat where
  "HEADER_LEN = ALIGNMENT"

definition ATTR_UNORDERED :: attrT where
  "ATTR_UNORDERED = 0x0"

definition ATTR_ORDERED :: attrT where
  "ATTR_ORDERED = 0x1"

definition DEFAULT_MAX_MSG_LEN :: nat where
  "DEFAULT_MAX_MSG_LEN = 3 * 512 * 1024"

definition DEFAULT_NRECV :: int where
  "DEFAULT_NRECV = 128"

text \<open>\<^verbatim>\<open>RmiTask::is_ordered\<close>: the conversion of \<^verbatim>\<open>attr & ATTR_ORDERED\<close> to \<^verbatim>\<open>bool\<close>.\<close>

definition is_ordered :: "attrT \<Rightarrow> bool" where
  "is_ordered a = (a AND ATTR_ORDERED \<noteq> 0)"

text \<open>
  The member declarations of \<^verbatim>\<open>struct header\<close> and of \<^verbatim>\<open>struct qmsg\<close>, in the order
  of the source, each with its declared type.
\<close>

datatype ctype = T_size_t | T_rmi_handlerT | T_int | T_ProcessID | T_attrT | T_counterT

definition header_members :: "(string \<times> ctype) list" where
  "header_members = [(''func'', T_rmi_handlerT), (''attr'', T_attrT)]"

definition qmsg_members :: "(string \<times> ctype) list" where
  "qmsg_members =
     [(''len'', T_size_t), (''func'', T_rmi_handlerT), (''i'', T_int),
      (''src'', T_ProcessID), (''attr'', T_attrT), (''count'', T_counterT)]"

text \<open>
  The size of a member type in bytes. \<^verbatim>\<open>attrT\<close> is \<^verbatim>\<open>uint32_t\<close>, \<^verbatim>\<open>counterT\<close> is
  \<^verbatim>\<open>uint16_t\<close>, \<^verbatim>\<open>ProcessID\<close> and \<^verbatim>\<open>int\<close> take four bytes; a function pointer and
  \<^verbatim>\<open>size_t\<close> take the pointer width \<open>p\<close> of the platform, which the header does not fix
  and which is therefore a parameter. Every member is aligned to its own size and the
  struct to its widest member.
\<close>

fun sizeof_ctype :: "nat \<Rightarrow> ctype \<Rightarrow> nat" where
  "sizeof_ctype p T_size_t = p"
| "sizeof_ctype p T_rmi_handlerT = p"
| "sizeof_ctype p T_int = 4"
| "sizeof_ctype p T_ProcessID = 4"
| "sizeof_ctype p T_attrT = 4"
| "sizeof_ctype p T_counterT = 2"

definition round_up :: "nat \<Rightarrow> nat \<Rightarrow> nat" where
  "round_up a n = ((n + a - 1) div a) * a"

fun layout_end :: "nat \<Rightarrow> nat \<Rightarrow> ctype list \<Rightarrow> nat" where
  "layout_end p off [] = off"
| "layout_end p off (t # ts) =
     layout_end p (round_up (sizeof_ctype p t) off + sizeof_ctype p t) ts"

definition sizeof_struct :: "nat \<Rightarrow> (string \<times> ctype) list \<Rightarrow> nat" where
  "sizeof_struct p ms =
     round_up (foldr max (map (sizeof_ctype p \<circ> snd) ms) 1) (layout_end p 0 (map snd ms))"

text \<open>
  A message on the wire starts with \<^verbatim>\<open>HEADER_LEN\<close> bytes reserved for the header; the
  payload follows at this offset whatever the header holds.
\<close>

definition payload_offset :: "rmi_handlerT \<Rightarrow> attrT \<Rightarrow> nat" where
  "payload_offset f a = HEADER_LEN"

text \<open>
  \<^verbatim>\<open>class RmiTask\<close>. The arrays \<^verbatim>\<open>send_counters\<close> and \<^verbatim>\<open>recv_counters\<close> are indexed by
  rank; \<^verbatim>\<open>q\<close> holds the queued messages, its live part being the list, so that
  \<^verbatim>\<open>n_in_q\<close> is its length. \<^verbatim>\<open>recv_buf\<close> has one slot beyond the \<^verbatim>\<open>nrecv_\<close> ordinary ones
  ("+1 for huge messages"); \<open>huge_slot\<close> is that slot, holding the source and size of the
  oversize receive posted on it. The last three fields are traces of what the server
  thread did, oldest first: the handler invocations, the buffers posted again, and the
  oversize receives posted. The members \<^verbatim>\<open>max_msg_len_\<close>, \<^verbatim>\<open>nrecv_\<close> and \<^verbatim>\<open>maxq_\<close> are
  written with a final \<open>m\<close>, since a name cannot end with an underscore here. The
  communicator, the receive buffers and requests, and the scratch arrays \<^verbatim>\<open>status\<close> and
  \<^verbatim>\<open>ind\<close> belong to the transport and are left out; what the transport delivers is given
  to the server as a list of completed receives.
\<close>

record RmiTask =
  hugeq :: "(ProcessID \<times> nat) list"
  nproc :: int
  rank :: ProcessID
  finished :: bool
  send_counters :: "ProcessID \<Rightarrow> counterT"
  recv_counters :: "ProcessID \<Rightarrow> counterT"
  max_msg_len_m :: nat
  nrecv_m :: nat
  maxq_m :: nat
  q :: "qmsg list"
  huge_slot :: "(ProcessID \<times> nat) option"
  invoked :: "qmsg list"
  reposted :: "int list"
  huge_posted :: "(ProcessID \<times> nat) list"

definition n_in_q :: "RmiTask \<Rightarrow> int" where
  "n_in_q t = int (length (q t))"

text \<open>
  What a transport send carries, as section 3 of the specification lists it for the
  header: handler, attribute bits, the sequence counter when one was stamped, and the
  length; \<open>w_announce\<close> marks the announcement of a huge message.
\<close>

record wire_msg =
  w_dest :: ProcessID
  w_func :: rmi_handlerT
  w_attr :: attrT
  w_count :: "counterT option"
  w_nbyte :: nat
  w_announce :: bool

text \<open>
  The static members of \<^verbatim>\<open>class RMI\<close>, with the lines written to \<^verbatim>\<open>std::cerr\<close> and the
  transport sends issued, oldest first. \<^verbatim>\<open>task_ptr\<close> is \<open>None\<close> when null.
\<close>

record RMI =
  task_ptr :: "RmiTask option"
  stats :: RMIStats
  debugging :: bool
  testsome_backoff_us :: int
  cerr :: "string list"
  sent :: "wire_msg list"

type_synonym Request = nat

section \<open>Errors\<close>

text \<open>
  \<^verbatim>\<open>MADNESS_EXCEPTION\<close> throws; what a failed \<^verbatim>\<open>MADNESS_ASSERT\<close> does is chosen when the
  library is configured (\<^verbatim>\<open>--enable-madex\<close>: throw, the default, abort, assert or
  disable), so the choice is a parameter of every function that asserts.
\<close>

datatype error = MadnessException string | Aborted | AssertFailed

datatype madex = Throw | Abort | Assert | Disable

fun MADNESS_ASSERT :: "madex \<Rightarrow> bool \<Rightarrow> error option" where
  "MADNESS_ASSERT mx True = None"
| "MADNESS_ASSERT Throw False = Some (MadnessException ''MADNESS ASSERTION FAILED'')"
| "MADNESS_ASSERT Abort False = Some Aborted"
| "MADNESS_ASSERT Assert False = Some AssertFailed"
| "MADNESS_ASSERT Disable False = None"

section \<open>The public operations of class RMI\<close>

text \<open>\<^verbatim>\<open>RMI::max_msg_len\<close>, \<^verbatim>\<open>RMI::maxq\<close> and \<^verbatim>\<open>RMI::nrecv\<close>.\<close>

definition max_msg_len :: "RMI \<Rightarrow> nat" where
  "max_msg_len s = (case task_ptr s of Some t \<Rightarrow> max_msg_len_m t | None \<Rightarrow> DEFAULT_MAX_MSG_LEN)"

text \<open>
  With assertions disabled \<^verbatim>\<open>maxq\<close> and \<^verbatim>\<open>nrecv\<close> read through a null pointer; the model
  has no value for that and reports it as \<open>None\<close> next to the asserted errors.
\<close>

definition maxq :: "madex \<Rightarrow> RMI \<Rightarrow> error option + nat" where
  "maxq mx s =
     (case MADNESS_ASSERT mx (task_ptr s \<noteq> None) of
        Some e \<Rightarrow> Inl (Some e)
      | None \<Rightarrow> (case task_ptr s of Some t \<Rightarrow> Inr (maxq_m t) | None \<Rightarrow> Inl None))"

definition nrecv :: "madex \<Rightarrow> RMI \<Rightarrow> error option + nat" where
  "nrecv mx s =
     (case MADNESS_ASSERT mx (task_ptr s \<noteq> None) of
        Some e \<Rightarrow> Inl (Some e)
      | None \<Rightarrow> (case task_ptr s of Some t \<Rightarrow> Inr (nrecv_m t) | None \<Rightarrow> Inl None))"

text \<open>
  Modelled from the spec: \<^verbatim>\<open>RmiTask::isend\<close>, declared in the header and defined in
  worldrmi.cc, which is not among the sources. Section 4.1: the send path builds a
  header, stamps the next counter of the destination when ordering is requested (the
  counter being \<^verbatim>\<open>send_counters[dest]\<close> of the header, of type \<^verbatim>\<open>counterT\<close>), and issues a
  transport send of header and payload, after a small announcement carrying the true size
  when the payload is huge (section 4.4); it returns a request handle, here the position
  of the send in \<open>sent\<close>. Sections 4.6 and 8: the sent-side statistics grow by one message
  and by the bytes sent.
\<close>

definition RmiTask_isend ::
  "nat \<Rightarrow> ProcessID \<Rightarrow> rmi_handlerT \<Rightarrow> attrT \<Rightarrow> RmiTask \<Rightarrow> RMI \<Rightarrow> Request \<times> RMI" where
  "RmiTask_isend nbyte dest f a t s =
     (let cnt = (if is_ordered a then Some (send_counters t dest) else None);
          t' = (if is_ordered a
                then t\<lparr>send_counters := (send_counters t)(dest := send_counters t dest + 1)\<rparr>
                else t);
          m = \<lparr>w_dest = dest, w_func = f, w_attr = a, w_count = cnt, w_nbyte = nbyte,
               w_announce = False\<rparr>;
          out = (if nbyte > max_msg_len_m t
                 then [\<lparr>w_dest = dest, w_func = f, w_attr = a, w_count = None,
                        w_nbyte = nbyte, w_announce = True\<rparr>, m]
                 else [m]);
          st = (stats s)\<lparr>nmsg_sent := nmsg_sent (stats s) + 1,
                         nbyte_sent := nbyte_sent (stats s) + word_of_nat nbyte\<rparr>
      in (length (sent s @ out) - 1, s\<lparr>task_ptr := Some t', stats := st, sent := sent s @ out\<rparr>))"

text \<open>
  \<^verbatim>\<open>RMI::isend\<close>. The payload pointer \<^verbatim>\<open>buf\<close> is not inspected and is left out. With a
  null \<^verbatim>\<open>task_ptr\<close> the two lines go to \<^verbatim>\<open>std::cerr\<close> and the exception is thrown.
\<close>

definition RMI_isend ::
  "nat \<Rightarrow> ProcessID \<Rightarrow> rmi_handlerT \<Rightarrow> attrT \<Rightarrow> RMI \<Rightarrow> (error + Request) \<times> RMI" where
  "RMI_isend nbyte dest f a s =
     (case task_ptr s of
        None \<Rightarrow>
          (Inl (MadnessException ''!! MADNESS error: The RMI thread is not running''),
           s\<lparr>cerr := cerr s @
              [''!! MADNESS RMI error: Attempting to send a message when the RMI thread is not running'',
               ''!! MADNESS RMI error: This typically occurs when an active message is sent or a remote task is spawned after calling madness::finalize()'']\<rparr>)
      | Some t \<Rightarrow> (case RmiTask_isend nbyte dest f a t s of (r, s') \<Rightarrow> (Inr r, s')))"

text \<open>
  \<^verbatim>\<open>RMI::begin\<close>, up to the start of the server thread. The environment is a map from
  names to values. \<open>extract buf v\<close> is what \<^verbatim>\<open>ss >> testsome_backoff_us\<close> leaves in the
  variable that held \<open>v\<close> when the stream was made from \<open>buf\<close>: formatted extraction
  belongs to the C++ library, so it is a parameter. The constructor of \<^verbatim>\<open>RmiTask\<close> is
  not in the header either; \<open>new_RmiTask\<close> is the object it builds.
\<close>

definition RMI_begin ::
  "madex \<Rightarrow> (string \<Rightarrow> string option) \<Rightarrow> (string \<Rightarrow> int \<Rightarrow> int) \<Rightarrow> RmiTask \<Rightarrow> RMI
     \<Rightarrow> error option \<times> RMI" where
  "RMI_begin mx getenv extract new_RmiTask s =
     (let s1 = s\<lparr>testsome_backoff_us := 5\<rparr>;
          s2 = (case getenv ''MAD_BACKOFF_US'' of
                  None \<Rightarrow> s1
                | Some buf \<Rightarrow>
                    (let v = extract buf (testsome_backoff_us s1);
                         v1 = (if v < 0 then 0 else v);
                         v2 = (if v1 > 100 then 100 else v1)
                     in s1\<lparr>testsome_backoff_us := v2\<rparr>))
      in case MADNESS_ASSERT mx (task_ptr s2 = None) of
           Some e \<Rightarrow> (Some e, s2)
         | None \<Rightarrow> (None, s2\<lparr>task_ptr := Some new_RmiTask\<rparr>))"

text \<open>\<^verbatim>\<open>RMI::set_debug\<close>, \<^verbatim>\<open>RMI::get_debug\<close> and \<^verbatim>\<open>RMI::get_stats\<close>.\<close>

definition set_debug :: "bool \<Rightarrow> RMI \<Rightarrow> RMI" where
  "set_debug status s = s\<lparr>debugging := status\<rparr>"

definition get_debug :: "RMI \<Rightarrow> bool" where
  "get_debug s = debugging s"

definition get_stats :: "RMI \<Rightarrow> RMIStats" where
  "get_stats s = stats s"

section \<open>The server thread: ordering and the huge-message queue\<close>

text \<open>
  Modelled from the spec: \<^verbatim>\<open>RmiTask::post_recv_buf\<close>, \<^verbatim>\<open>RmiTask::process_some\<close>,
  \<^verbatim>\<open>RmiTask::huge_msg_handler\<close> and \<^verbatim>\<open>RmiTask::post_pending_huge_msg\<close>, declared in the
  header and defined in worldrmi.cc, which is not among the sources. The definitions
  below follow sections 4.2, 4.4 and 4.5 of the specification over the members the
  header declares: the expectations \<^verbatim>\<open>recv_counters\<close>, the queue \<^verbatim>\<open>q\<close> of \<^verbatim>\<open>qmsg\<close> ordered by
  \<^verbatim>\<open>operator<\<close>, and the list \<^verbatim>\<open>hugeq\<close> of pairs of a source and a size. The receive-side
  statistics are static members of \<^verbatim>\<open>RMI\<close> and are left out of this part. The queue is
  taken to have room for every arrival: neither the header nor the specification says
  what happens when the array is full.
\<close>

text \<open>
  Section 4.5: after a dispatch a new receive is posted on the slot. Section 4.4: the
  buffer of a huge message is not part of the pool and is released instead; it is the
  slot after the \<^verbatim>\<open>nrecv_\<close> ordinary ones.
\<close>

definition post_recv_buf :: "int \<Rightarrow> RmiTask \<Rightarrow> RmiTask" where
  "post_recv_buf k t =
     (if k < int (nrecv_m t) then t\<lparr>reposted := reposted t @ [k]\<rparr> else t\<lparr>huge_slot := None\<rparr>)"

text \<open>Section 4.2: the handler is invoked in line, then the buffer is posted again.\<close>

definition dispatch :: "qmsg \<Rightarrow> RmiTask \<Rightarrow> RmiTask" where
  "dispatch m t = post_recv_buf (i m) (t\<lparr>invoked := invoked t @ [m]\<rparr>)"

definition advance :: "ProcessID \<Rightarrow> RmiTask \<Rightarrow> RmiTask" where
  "advance s t = t\<lparr>recv_counters := (recv_counters t)(s := recv_counters t s + 1)\<rparr>"

text \<open>
  The pending arrivals of source \<open>s\<close> are the entries of \<^verbatim>\<open>q\<close> that carry this source;
  their minimum is taken with \<^verbatim>\<open>operator<\<close>, the earliest entry winning among equals.
\<close>

definition pending :: "ProcessID \<Rightarrow> RmiTask \<Rightarrow> qmsg list" where
  "pending s t = filter (\<lambda>m. src m = s) (q t)"

fun heap_min :: "qmsg list \<Rightarrow> qmsg option" where
  "heap_min [] = None"
| "heap_min (m # ms) =
     (case heap_min ms of
        None \<Rightarrow> Some m
      | Some m' \<Rightarrow> if qmsg_less m' m then Some m' else Some m)"

text \<open>
  Draining-ready: pop the minimum of the source while it equals the expectation,
  dispatching and advancing; stop when it differs or nothing is pending.
\<close>

function drain :: "ProcessID \<Rightarrow> RmiTask \<Rightarrow> RmiTask" where
  "drain s t =
     (case heap_min (pending s t) of
        None \<Rightarrow> t
      | Some m \<Rightarrow>
          if count m = recv_counters t s
          then drain s (advance s (dispatch m (t\<lparr>q := remove1 m (q t)\<rparr>)))
          else t)"
  by pat_completeness auto
termination
proof (relation "measure (\<lambda>(s, t). length (q t))")
  show "wf (measure (\<lambda>(s, t). length (q t)))"
    by simp
next
  fix s :: ProcessID and t :: RmiTask and m :: qmsg
  assume min: "heap_min (pending s t) = Some m"
  have mem: "heap_min ms = Some x \<Longrightarrow> x \<in> set ms" for ms x
    by (induction ms arbitrary: x) (auto split: option.splits if_splits)
  from min have "m \<in> set (pending s t)"
    by (rule mem)
  then have "m \<in> set (q t)"
    by (simp add: pending_def)
  then have "length (remove1 m (q t)) < length (q t)"
    by (simp add: length_remove1) (cases "q t"; simp)
  then show "((s, advance s (dispatch m (t\<lparr>q := remove1 m (q t)\<rparr>))), (s, t))
               \<in> measure (\<lambda>(s, t). length (q t))"
    by (simp add: advance_def dispatch_def post_recv_buf_def)
qed

declare drain.simps [simp del]

text \<open>
  On a completed receive of a message: an unordered one is dispatched at once; an ordered
  one whose counter equals the expectation of its source is dispatched, the expectation
  advances and the pending arrivals of the source are drained; any other ordered one is
  put into the queue. Section 4.2 expects the counter of such a message to be greater
  than the expectation and gives insertion as the step for every counter that differs,
  so the model inserts without a check.
\<close>

definition on_receive :: "qmsg \<Rightarrow> RmiTask \<Rightarrow> RmiTask" where
  "on_receive m t =
     (if \<not> is_ordered (attr m) then dispatch m t
      else if count m = recv_counters t (src m)
      then drain (src m) (advance (src m) (dispatch m t))
      else t\<lparr>q := q t @ [m]\<rparr>)"

text \<open>
  The rendezvous. An announcement records the descriptor at the back of \<^verbatim>\<open>hugeq\<close>; when
  the oversize slot is free the descriptor at the front is taken and a receive of its
  size is posted for its source.
\<close>

definition post_pending_huge_msg :: "RmiTask \<Rightarrow> RmiTask" where
  "post_pending_huge_msg t =
     (case huge_slot t of
        Some d \<Rightarrow> t
      | None \<Rightarrow>
          (case hugeq t of
             [] \<Rightarrow> t
           | d # ds \<Rightarrow> t\<lparr>hugeq := ds, huge_slot := Some d, huge_posted := huge_posted t @ [d]\<rparr>))"

definition huge_msg_handler :: "ProcessID \<Rightarrow> nat \<Rightarrow> RmiTask \<Rightarrow> RmiTask" where
  "huge_msg_handler s nbyte t = post_pending_huge_msg (t\<lparr>hugeq := hugeq t @ [(s, nbyte)]\<rparr>)"

text \<open>
  A completed receive is a message or the announcement of a huge one (coming in on buffer
  \<open>k\<close> from source \<open>s\<close> with the true size). One call of \<^verbatim>\<open>process_some\<close> handles the
  receives that completed, in the order the transport reports them, and then posts a
  pending oversize receive if it can; the server calls it again and again.
\<close>

datatype arrival = Msg qmsg | Announce int ProcessID nat

fun deliver :: "arrival \<Rightarrow> RmiTask \<Rightarrow> RmiTask" where
  "deliver (Msg m) t = on_receive m t"
| "deliver (Announce k s nbyte) t = post_recv_buf k (huge_msg_handler s nbyte t)"

definition process_some :: "arrival list \<Rightarrow> RmiTask \<Rightarrow> RmiTask" where
  "process_some as t = post_pending_huge_msg (fold deliver as t)"

definition serve :: "arrival list list \<Rightarrow> RmiTask \<Rightarrow> RmiTask" where
  "serve bs t = fold process_some bs t"

text \<open>The messages and the descriptors among the receives, in order of arrival.\<close>

fun msgs :: "arrival list \<Rightarrow> qmsg list" where
  "msgs [] = []"
| "msgs (Msg m # as) = m # msgs as"
| "msgs (Announce k s nbyte # as) = msgs as"

fun announced :: "arrival list \<Rightarrow> (ProcessID \<times> nat) list" where
  "announced [] = []"
| "announced (Msg m # as) = announced as"
| "announced (Announce k s nbyte # as) = (s, nbyte) # announced as"

text \<open>
  The ordered sends of one source to this rank, in the order of their counters: the first
  carries \<open>c\<close>, each next one the successor.
\<close>

fun stamped :: "ProcessID \<Rightarrow> counterT \<Rightarrow> qmsg list \<Rightarrow> bool" where
  "stamped a c [] = True"
| "stamped a c (m # ms) =
     (src m = a \<and> is_ordered (attr m) \<and> count m = c \<and> stamped a (c + 1) ms)"

definition from_ordered :: "ProcessID \<Rightarrow> qmsg \<Rightarrow> bool" where
  "from_ordered a m = (src m = a \<and> is_ordered (attr m))"

section \<open>Start and stop of the server thread\<close>

text \<open>
  \<^verbatim>\<open>RMI::end\<close>, \<^verbatim>\<open>RmiTask::exit\<close> and \<^verbatim>\<open>RmiTask::run\<close> (the variant without TBB) run in two
  threads that meet in the volatile member \<^verbatim>\<open>finished\<close>. They are modelled as a
  transition system in which the threads take turns in any order, one statement at a
  time, every access to \<^verbatim>\<open>finished\<close> and \<^verbatim>\<open>task_ptr\<close> being one step.

  The main thread is at one of: the test \<^verbatim>\<open>if (task_ptr)\<close> of \<^verbatim>\<open>end\<close>; the assignment
  \<^verbatim>\<open>finished = true\<close> of \<^verbatim>\<open>exit\<close>; the loop \<^verbatim>\<open>while (finished) myusleep(1000)\<close>; the
  assignment \<^verbatim>\<open>task_ptr = nullptr\<close>; or \<^verbatim>\<open>end\<close> has returned, from where it may be called
  again (the message that \<^verbatim>\<open>exit\<close> prints when debugging is left out).

  The server thread is at one of: the test of \<^verbatim>\<open>while (!finished)\<close>; the call of
  \<^verbatim>\<open>process_some\<close>; the assignment \<^verbatim>\<open>finished = false\<close>; the \<^verbatim>\<open>delete this\<close> at the end
  of \<^verbatim>\<open>run\<close>; the \<^verbatim>\<open>delete this\<close> of the catch block; or \<^verbatim>\<open>run\<close> has returned, or has
  thrown, or no server thread was ever started.
\<close>

datatype main_pc = E_test | X_set | X_wait | E_null | E_ret

datatype server_pc = R_test | R_body | R_clear | R_delete | R_catch | R_done | R_thrown | R_none

text \<open>
  \<open>ptr_set\<close> tells whether \<^verbatim>\<open>RMI::task_ptr\<close> is not null; \<open>fin\<close> is the member \<^verbatim>\<open>finished\<close> of
  the task object, \<open>None\<close> once the object is deleted; \<open>handled\<close> lists the handler
  invocations made so far.
\<close>

record lifecycle =
  ptr_set :: bool
  fin :: "bool option"
  mpc :: main_pc
  spc :: server_pc
  handled :: "qmsg list"

text \<open>
  One turn of a thread: \<open>RMI_end_step\<close> is a statement of \<^verbatim>\<open>RMI::end\<close>, with \<^verbatim>\<open>RmiTask::exit\<close>
  in its place, and \<open>RmiTask_run_step\<close> a statement of \<^verbatim>\<open>RmiTask::run\<close>. A turn of the main
  thread carries the value that a read of
  \<^verbatim>\<open>finished\<close> yields should the object be deleted already (the code does not exclude
  this read); a write to the deleted object changes nothing in the model. A turn of the
  server carries what the call of \<^verbatim>\<open>process_some\<close> does if that is the statement reached:
  the handlers it invokes, and whether it throws.
\<close>

datatype event = Main bool | Server "qmsg list" bool

fun RMI_end_step :: "bool \<Rightarrow> lifecycle \<Rightarrow> lifecycle" where
  "RMI_end_step g s =
     (case mpc s of
        E_test \<Rightarrow> if ptr_set s then s\<lparr>mpc := X_set\<rparr> else s\<lparr>mpc := E_ret\<rparr>
      | X_set \<Rightarrow> s\<lparr>fin := map_option (\<lambda>f. True) (fin s), mpc := X_wait\<rparr>
      | X_wait \<Rightarrow> if (case fin s of Some f \<Rightarrow> f | None \<Rightarrow> g) then s else s\<lparr>mpc := E_null\<rparr>
      | E_null \<Rightarrow> s\<lparr>ptr_set := False, mpc := E_ret\<rparr>
      | E_ret \<Rightarrow> s\<lparr>mpc := E_test\<rparr>)"

fun RmiTask_run_step :: "qmsg list \<Rightarrow> bool \<Rightarrow> lifecycle \<Rightarrow> lifecycle option" where
  "RmiTask_run_step hs throws s =
     (case spc s of
        R_test \<Rightarrow>
          (case fin s of
             Some f \<Rightarrow> Some (if \<not> f then s\<lparr>spc := R_body\<rparr> else s\<lparr>spc := R_clear\<rparr>)
           | None \<Rightarrow> None)
      | R_body \<Rightarrow>
          Some (s\<lparr>handled := handled s @ hs, spc := (if throws then R_catch else R_test)\<rparr>)
      | R_clear \<Rightarrow> Some (s\<lparr>fin := map_option (\<lambda>f. False) (fin s), spc := R_delete\<rparr>)
      | R_delete \<Rightarrow> Some (s\<lparr>fin := None, spc := R_done\<rparr>)
      | R_catch \<Rightarrow> Some (s\<lparr>fin := None, spc := R_thrown\<rparr>)
      | R_done \<Rightarrow> None
      | R_thrown \<Rightarrow> None
      | R_none \<Rightarrow> None)"

fun step :: "event \<Rightarrow> lifecycle \<Rightarrow> lifecycle option" where
  "step (Main g) s = Some (RMI_end_step g s)"
| "step (Server hs throws) s = RmiTask_run_step hs throws s"

text \<open>A schedule is a list of turns; it runs as long as every turn can be taken.\<close>

fun turns :: "event list \<Rightarrow> lifecycle \<Rightarrow> lifecycle option" where
  "turns [] s = Some s"
| "turns (e # es) s = (case step e s of None \<Rightarrow> None | Some s' \<Rightarrow> turns es s')"

text \<open>
  The state in which \<^verbatim>\<open>end\<close> is called on a running server: \<^verbatim>\<open>begin\<close> has set \<^verbatim>\<open>task_ptr\<close>
  and started the thread, which is in its loop with \<^verbatim>\<open>finished\<close> false.
\<close>

definition running :: "lifecycle \<Rightarrow> bool" where
  "running s =
     (ptr_set s \<and> fin s = Some False \<and> mpc s = E_test \<and> (spc s = R_test \<or> spc s = R_body))"

text \<open>The server is out of its loop for good: it can call \<^verbatim>\<open>process_some\<close> no more.\<close>

definition left_loop :: "lifecycle \<Rightarrow> bool" where
  "left_loop s = (spc s = R_delete \<or> spc s = R_done \<or> spc s = R_thrown)"

text \<open>
  While the server has not left \<^verbatim>\<open>run\<close> its object exists, \<^verbatim>\<open>task_ptr\<close> is set and the
  main thread has not got past the wait of \<^verbatim>\<open>exit\<close>, where it sees \<^verbatim>\<open>finished\<close> true.
\<close>

definition alive :: "lifecycle \<Rightarrow> bool" where
  "alive s = (spc s = R_test \<or> spc s = R_body \<or> spc s = R_clear \<or> spc s = R_catch)"

definition lc_inv :: "lifecycle \<Rightarrow> bool" where
  "lc_inv s =
     (spc s \<noteq> R_none
      \<and> (mpc s = E_ret \<longrightarrow> \<not> ptr_set s)
      \<and> (alive s \<longrightarrow> fin s \<noteq> None \<and> ptr_set s
            \<and> (mpc s = E_test \<or> mpc s = X_set \<or> mpc s = X_wait)
            \<and> (mpc s = X_wait \<longrightarrow> fin s = Some True)))"

section \<open>Invariants of the server thread\<close>

text \<open>
  What the server holds for one source \<open>a\<close>: its expectation, its pending arrivals in
  the order of \<^verbatim>\<open>q\<close>, and the messages of \<open>a\<close> among the handler invocations, in order.
\<close>

definition view :: "ProcessID \<Rightarrow> RmiTask \<Rightarrow> counterT \<times> qmsg list \<times> qmsg list" where
  "view a t = (recv_counters t a, pending a t, filter (\<lambda>m. src m = a) (invoked t))"

fun from_rank :: "ProcessID \<Rightarrow> arrival \<Rightarrow> bool" where
  "from_rank a (Msg m) = (src m = a)"
| "from_rank a (Announce k s nbyte) = False"

text \<open>
  The ordered sends of \<open>a\<close> not yet dispatched are a list \<open>rest\<close> stamped from the
  expectation on, without wrap-around; they are the pending arrivals of \<open>a\<close> together with
  the messages \<open>R\<close> still to arrive; and the ordered messages of \<open>a\<close> dispatched so far,
  followed by \<open>rest\<close>, are \<open>D\<close>. The source is settled when none of its pending arrivals
  carries the expectation.
\<close>

definition ord_inv :: "ProcessID \<Rightarrow> qmsg list \<Rightarrow> RmiTask \<Rightarrow> qmsg multiset \<Rightarrow> bool" where
  "ord_inv a D t R =
     (\<exists>rest. stamped a (recv_counters t a) rest
        \<and> unat (recv_counters t a) + length rest \<le> 2 ^ 16
        \<and> mset (pending a t) + R = mset rest
        \<and> filter (from_ordered a) (invoked t) @ rest = D)"

definition settled :: "ProcessID \<Rightarrow> RmiTask \<Rightarrow> bool" where
  "settled a t = (\<forall>x\<in>set (pending a t). count x \<noteq> recv_counters t a)"

text \<open>
  The handler invocations made between two states of the server, and the condition that
  the least pending entry of a source does not carry its expectation.
\<close>

definition new_invoked :: "RmiTask \<Rightarrow> RmiTask \<Rightarrow> qmsg list" where
  "new_invoked t t' = drop (length (invoked t)) (invoked t')"

definition head_blocked :: "ProcessID \<Rightarrow> RmiTask \<Rightarrow> bool" where
  "head_blocked a t =
     (case heap_min (pending a t) of None \<Rightarrow> True | Some m \<Rightarrow> count m \<noteq> recv_counters t a)"

text \<open>
  Every entry of the queue is an ordered message; and from \<open>t\<close> to \<open>t'\<close> the invocations
  grow by a list whose ordered messages of \<open>a\<close> are stamped from the expectation on, the
  expectation advancing by their number.
\<close>

definition qord :: "RmiTask \<Rightarrow> bool" where
  "qord t = list_all (\<lambda>m. is_ordered (attr m)) (q t)"

definition tracks :: "ProcessID \<Rightarrow> RmiTask \<Rightarrow> RmiTask \<Rightarrow> bool" where
  "tracks a t t' =
     (\<exists>X. invoked t' = invoked t @ X
        \<and> stamped a (recv_counters t a) (filter (from_ordered a) X)
        \<and> recv_counters t' a = recv_counters t a + of_nat (length (filter (from_ordered a) X)))"

section \<open>Concrete states and inputs\<close>

definition rmi0 :: RMI where
  "rmi0 = \<lparr>task_ptr = None, stats = RMIStats_init, debugging = False, testsome_backoff_us = 0,
           cerr = [], sent = []\<rparr>"

definition u0 :: qmsg where
  "u0 = \<lparr>len = 66, func = 7, i = 3, src = 0, attr = ATTR_UNORDERED, count = 0\<rparr>"

definition lc0 :: lifecycle where
  "lc0 = \<lparr>ptr_set = True, fin = Some False, mpc = E_test, spc = R_test, handled = []\<rparr>"

definition lc_end :: lifecycle where
  "lc_end = \<lparr>ptr_set = False, fin = Some False, mpc = E_ret, spc = R_delete, handled = [u0]\<rparr>"

definition lc_never :: lifecycle where
  "lc_never = \<lparr>ptr_set = False, fin = None, mpc = E_test, spc = R_none, handled = []\<rparr>"

definition sched :: "event list" where
  "sched = [Server [] False, Server [u0] False, Main False, Main False, Main False,
            Server [] False, Server [] False, Main False, Main False]"

text \<open>
  The scenario of section 8: rank 0 sends the ordered messages \<open>m0\<close>, \<open>m1\<close>, \<open>m2\<close> and the
  unordered \<open>u0\<close> to rank 1; \<open>n5\<close> is an ordered message of rank 2 that is ahead of its turn.
\<close>

definition m0 :: qmsg where
  "m0 = \<lparr>len = 66, func = 7, i = 0, src = 0, attr = ATTR_ORDERED, count = 0\<rparr>"

definition m1 :: qmsg where
  "m1 = \<lparr>len = 66, func = 7, i = 1, src = 0, attr = ATTR_ORDERED, count = 1\<rparr>"

definition m2 :: qmsg where
  "m2 = \<lparr>len = 66, func = 7, i = 2, src = 0, attr = ATTR_ORDERED, count = 2\<rparr>"

definition n5 :: qmsg where
  "n5 = \<lparr>len = 80, func = 9, i = 4, src = 2, attr = ATTR_ORDERED, count = 5\<rparr>"

definition task0 :: RmiTask where
  "task0 = \<lparr>hugeq = [], nproc = 3, rank = 1, finished = False,
            send_counters = (\<lambda>p. 0), recv_counters = (\<lambda>p. 0),
            max_msg_len_m = DEFAULT_MAX_MSG_LEN, nrecv_m = 128, maxq_m = 129,
            q = [], huge_slot = None, invoked = [], reposted = [], huge_posted = []\<rparr>"

definition arrivals0 :: "arrival list list" where
  "arrivals0 = [[Msg m2, Msg u0], [Msg n5, Msg m1], [Msg m0]]"

text \<open>
  A receiver that has dispatched 65535 ordered messages of rank 0, and the next two
  ordered sends of rank 0: \<open>w1\<close> gets the counter 65535 and \<open>w2\<close>, sent after it, the
  counter 0.
\<close>

definition task_wrap :: RmiTask where
  "task_wrap = task0\<lparr>recv_counters := (recv_counters task0)(0 := 65535)\<rparr>"

definition w1 :: qmsg where
  "w1 = \<lparr>len = 66, func = 7, i = 0, src = 0, attr = ATTR_ORDERED, count = 65535\<rparr>"

definition w2 :: qmsg where
  "w2 = \<lparr>len = 66, func = 7, i = 1, src = 0, attr = ATTR_ORDERED, count = 0\<rparr>"

text \<open>
  Three announcements of huge messages, two of rank 0 and one of rank 2 between them, and
  then the huge message of the first, which comes in on the slot after the pool.
\<close>

definition huge0 :: "arrival list list" where
  "huge0 = [[Announce 5 0 2000000, Announce 6 2 3000000, Announce 7 0 4000000],
            [Msg \<lparr>len = 2000000, func = 7, i = 128, src = 0, attr = ATTR_UNORDERED, count = 0\<rparr>]]"

section \<open>The constants, the accessors and the send guard\<close>

text \<open>
  C9: the pool defaults are 128 receive slots and a maximum ordinary message length of
  3*512*1024 bytes; a running instance carries its own values, and \<^verbatim>\<open>max_msg_len()\<close>
  returns the value of the instance when \<^verbatim>\<open>task_ptr\<close> is set and the default otherwise.
\<close>

theorem max_msg_len_defaults:
  "DEFAULT_NRECV = 128 \<and> DEFAULT_MAX_MSG_LEN = 3 * 512 * 1024
   \<and> DEFAULT_MAX_MSG_LEN = 1572864
   \<and> max_msg_len (s\<lparr>task_ptr := Some t\<rparr>) = max_msg_len_m t
   \<and> max_msg_len (s\<lparr>task_ptr := None\<rparr>) = DEFAULT_MAX_MSG_LEN
   \<and> nrecv mx (s\<lparr>task_ptr := Some t\<rparr>) = Inr (nrecv_m t)"
  by (simp add: DEFAULT_NRECV_def DEFAULT_MAX_MSG_LEN_def max_msg_len_def nrecv_def)

text \<open>
  C2: a call of \<^verbatim>\<open>RMI::isend\<close> while \<^verbatim>\<open>task_ptr\<close> is null raises the MADNESS exception; it
  returns no request handle, issues no transport send and leaves the statistics and
  \<^verbatim>\<open>task_ptr\<close> as they were.
\<close>

theorem isend_not_running:
  assumes "task_ptr s = None"
  shows "fst (RMI_isend nbyte dest f a s)
           = Inl (MadnessException ''!! MADNESS error: The RMI thread is not running'')
         \<and> sent (snd (RMI_isend nbyte dest f a s)) = sent s
         \<and> stats (snd (RMI_isend nbyte dest f a s)) = stats s
         \<and> task_ptr (snd (RMI_isend nbyte dest f a s)) = None"
  using assms by (simp add: RMI_isend_def)

theorem isend_not_running_witness:
  "task_ptr rmi0 = None
   \<and> fst (RMI_isend 100 1 7 ATTR_ORDERED rmi0)
       = Inl (MadnessException ''!! MADNESS error: The RMI thread is not running'')
   \<and> sent (snd (RMI_isend 100 1 7 ATTR_ORDERED rmi0)) = []"
proof -
  have h: "task_ptr rmi0 = None"
    by (simp add: rmi0_def)
  have "sent rmi0 = []"
    by (simp add: rmi0_def)
  with h isend_not_running [OF h, of 100 1 7 ATTR_ORDERED] show ?thesis
    by simp
qed

text \<open>
  C5: \<^verbatim>\<open>RMI::begin\<close> sets the backoff to 5 microseconds; when \<^verbatim>\<open>MAD_BACKOFF_US\<close> is set in
  the environment the value extracted from it takes its place, a negative one becoming 0
  and one above 100 becoming 100; so the backoff always lies between 0 and 100.
\<close>

theorem begin_backoff:
  "testsome_backoff_us (snd (RMI_begin mx getenv extract nt s))
     = (case getenv ''MAD_BACKOFF_US'' of
          None \<Rightarrow> 5
        | Some buf \<Rightarrow> max 0 (min 100 (extract buf 5)))
   \<and> 0 \<le> testsome_backoff_us (snd (RMI_begin mx getenv extract nt s))
   \<and> testsome_backoff_us (snd (RMI_begin mx getenv extract nt s)) \<le> 100"
  by (cases "MADNESS_ASSERT mx (task_ptr s = None)")
     (auto simp: RMI_begin_def Let_def split: option.splits)

text \<open>
  C8: the send counter, kept per destination, and the receive expectation, kept per
  source, are 16-bit unsigned values. A send stamps the counter only when ordering is
  requested, and then the counter of that destination grows by one, the others staying;
  advancing the expectation of a source adds one as well; the successor is taken modulo
  2^16, so that 65535 is followed by 0.
\<close>

theorem send_counter_16bit:
  "task_ptr (snd (RmiTask_isend nbyte dest f a t s))
     = Some (if is_ordered a
             then t\<lparr>send_counters := (send_counters t)(dest := send_counters t dest + 1)\<rparr>
             else t)
   \<and> w_count (last (sent (snd (RmiTask_isend nbyte dest f a t s))))
     = (if is_ordered a then Some (send_counters t dest) else None)
   \<and> unat (send_counters t dest + 1) = (unat (send_counters t dest) + 1) mod 2 ^ 16
   \<and> recv_counters (advance p r) = (recv_counters r)(p := recv_counters r p + 1)
   \<and> (65535 :: counterT) + 1 = 0"
  by (simp add: RmiTask_isend_def Let_def unat_word_ariths advance_def)

section \<open>The header\<close>

text \<open>
  C4, as the claim states it, fails: \<^verbatim>\<open>struct header\<close> has no member of the counter type
  and none of the length type; its two members are the handler and the attribute bits.
\<close>

theorem header_has_no_counter_or_length:
  "T_counterT \<notin> set (map snd header_members) \<and> T_size_t \<notin> set (map snd header_members)"
  by (simp add: header_members_def)

text \<open>
  C4, amended: the header holds a handler reference and the attribute bits; the length
  reserved for it is the constant \<^verbatim>\<open>HEADER_LEN\<close>, equal to \<^verbatim>\<open>ALIGNMENT\<close>, which is 64; with
  pointers of four or of eight bytes the struct fits into it; and the payload starts at
  that offset, a multiple of the alignment, whatever the header holds.
\<close>

theorem header_fits:
  assumes "p = 4 \<or> p = 8"
  shows "map fst header_members = [''func'', ''attr'']
     \<and> HEADER_LEN = ALIGNMENT \<and> ALIGNMENT = 64
     \<and> sizeof_struct p header_members \<le> HEADER_LEN
     \<and> payload_offset f a = HEADER_LEN \<and> HEADER_LEN mod ALIGNMENT = 0"
  using assms
  by (auto simp: header_members_def HEADER_LEN_def ALIGNMENT_def sizeof_struct_def
      round_up_def payload_offset_def)

theorem header_fits_witness:
  "((8::nat) = 4 \<or> (8::nat) = 8) \<and> sizeof_struct 8 header_members = 16
   \<and> sizeof_struct 8 header_members \<le> HEADER_LEN \<and> HEADER_LEN = 64"
proof -
  have h: "(8::nat) = 4 \<or> (8::nat) = 8"
    by simp
  have "sizeof_struct 8 header_members = 16"
    by (simp add: header_members_def sizeof_struct_def round_up_def)
  with header_fits [OF h, of 0 0] show ?thesis
    by simp
qed

section \<open>The server thread\<close>

text \<open>The minimum of a list of queued messages.\<close>

lemma heap_min_None: "heap_min ms = None \<longleftrightarrow> ms = []"
  by (induction ms) (auto split: option.splits)

lemma heap_min_mem: "heap_min ms = Some m \<Longrightarrow> m \<in> set ms"
  by (induction ms arbitrary: m) (auto split: option.splits if_splits)

lemma heap_min_le: "heap_min ms = Some m \<Longrightarrow> x \<in> set ms \<Longrightarrow> count m \<le> count x"
proof (induction ms arbitrary: m)
  case Nil
  then show ?case by simp
next
  case (Cons m0 ms)
  show ?case
  proof (cases "heap_min ms")
    case None
    with Cons.prems show ?thesis
      by (simp add: heap_min_None)
  next
    case (Some m')
    with Cons.IH [of m'] have le: "x \<in> set ms \<Longrightarrow> count m' \<le> count x"
      by simp
    show ?thesis
    proof (cases "qmsg_less m' m0")
      case True
      with Some Cons.prems have "m = m'" by simp
      with True Cons.prems(2) le show ?thesis
        by (auto simp: qmsg_less_def)
    next
      case False
      with Some Cons.prems have "m = m0" by simp
      with False Cons.prems(2) le show ?thesis
        by (fastforce simp: qmsg_less_def)
    qed
  qed
qed

text \<open>What the steps of the server leave untouched.\<close>

lemma post_recv_buf_frame [simp]:
  "q (post_recv_buf k t) = q t"
  "recv_counters (post_recv_buf k t) = recv_counters t"
  "invoked (post_recv_buf k t) = invoked t"
  "hugeq (post_recv_buf k t) = hugeq t"
  "huge_posted (post_recv_buf k t) = huge_posted t"
  by (simp_all add: post_recv_buf_def)

lemma dispatch_frame [simp]:
  "q (dispatch m t) = q t"
  "recv_counters (dispatch m t) = recv_counters t"
  "invoked (dispatch m t) = invoked t @ [m]"
  "hugeq (dispatch m t) = hugeq t"
  "huge_posted (dispatch m t) = huge_posted t"
  by (simp_all add: dispatch_def)

lemma advance_frame [simp]:
  "q (advance s t) = q t"
  "recv_counters (advance s t) = (recv_counters t)(s := recv_counters t s + 1)"
  "invoked (advance s t) = invoked t"
  "hugeq (advance s t) = hugeq t"
  "huge_posted (advance s t) = huge_posted t"
  by (simp_all add: advance_def)

lemma pending_frame [simp]:
  "pending a (post_recv_buf k t) = pending a t"
  "pending a (dispatch m t) = pending a t"
  "pending a (advance s t) = pending a t"
  "pending a (t\<lparr>q := remove1 m (q t)\<rparr>) = remove1 m (pending a t)"
  "pending a (t\<lparr>q := q t @ [m]\<rparr>) = (if src m = a then pending a t @ [m] else pending a t)"
  by (simp_all add: pending_def filter_remove1)

lemma drain_huge: "hugeq (drain s t) = hugeq t \<and> huge_posted (drain s t) = huge_posted t"
proof (induction s t rule: drain.induct)
  case (1 s t)
  show ?case
  proof (cases "heap_min (pending s t)")
    case None
    then show ?thesis by (simp add: drain.simps)
  next
    case (Some m)
    show ?thesis
    proof (cases "count m = recv_counters t s")
      case True
      with Some "1.IH" [of m] show ?thesis
        by (simp add: drain.simps [of s t])
    next
      case False
      with Some show ?thesis by (simp add: drain.simps)
    qed
  qed
qed

lemma drain_frame:
  "(\<forall>a. a \<noteq> s \<longrightarrow> recv_counters (drain s t) a = recv_counters t a \<and> pending a (drain s t) = pending a t)
   \<and> (\<exists>ms. invoked (drain s t) = invoked t @ ms \<and> (\<forall>m\<in>set ms. src m = s))"
proof (induction s t rule: drain.induct)
  case (1 s t)
  show ?case
  proof (cases "heap_min (pending s t)")
    case None
    then show ?thesis by (simp add: drain.simps)
  next
    case (Some m)
    then have sm: "src m = s"
      by (auto dest: heap_min_mem simp: pending_def)
    show ?thesis
    proof (cases "count m = recv_counters t s")
      case True
      let ?t1 = "advance s (dispatch m (t\<lparr>q := remove1 m (q t)\<rparr>))"
      from Some True have eq: "drain s t = drain s ?t1"
        by (simp add: drain.simps [of s t])
      from "1.IH" [OF Some True] obtain ms where
        fr: "\<forall>a. a \<noteq> s \<longrightarrow> recv_counters (drain s ?t1) a = recv_counters ?t1 a
                \<and> pending a (drain s ?t1) = pending a ?t1"
        and inv: "invoked (drain s ?t1) = invoked ?t1 @ ms" and ms: "\<forall>x\<in>set ms. src x = s"
        by blast
      have rm: "a \<noteq> s \<Longrightarrow> remove1 m (pending a t) = pending a t" for a
        using sm by (simp add: pending_def remove1_idem)
      from fr rm have "\<forall>a. a \<noteq> s \<longrightarrow> recv_counters (drain s t) a = recv_counters t a
                \<and> pending a (drain s t) = pending a t"
        by (simp add: eq)
      moreover from inv ms sm have "invoked (drain s t) = invoked t @ (m # ms) \<and> (\<forall>x\<in>set (m # ms). src x = s)"
        by (simp add: eq)
      ultimately show ?thesis by blast
    next
      case False
      with Some show ?thesis by (simp add: drain.simps)
    qed
  qed
qed

lemma post_pending_huge:
  "huge_posted (post_pending_huge_msg t) @ hugeq (post_pending_huge_msg t) = huge_posted t @ hugeq t"
  by (simp add: post_pending_huge_msg_def split: option.splits list.splits)

lemma huge_msg_handler_huge:
  "huge_posted (huge_msg_handler s n t) @ hugeq (huge_msg_handler s n t)
     = huge_posted t @ hugeq t @ [(s, n)]"
  by (simp add: huge_msg_handler_def post_pending_huge)

lemma on_receive_huge:
  "hugeq (on_receive m t) = hugeq t \<and> huge_posted (on_receive m t) = huge_posted t"
  by (simp add: on_receive_def drain_huge)

lemma deliver_huge:
  "huge_posted (deliver x t) @ hugeq (deliver x t) = huge_posted t @ hugeq t @ announced [x]"
  by (cases x) (simp_all add: on_receive_huge huge_msg_handler_huge)

lemma announced_append: "announced (xs @ ys) = announced xs @ announced ys"
  by (induction xs rule: announced.induct) simp_all

lemma fold_deliver_huge:
  "huge_posted (fold deliver xs t) @ hugeq (fold deliver xs t)
     = huge_posted t @ hugeq t @ announced xs"
proof (induction xs arbitrary: t)
  case Nil
  then show ?case by simp
next
  case (Cons x xs)
  have "announced (x # xs) = announced [x] @ announced xs"
    using announced_append [of "[x]" xs] by simp
  with Cons [of "deliver x t"] deliver_huge [of x t] show ?case
    by simp
qed

lemma process_some_huge:
  "huge_posted (process_some xs t) @ hugeq (process_some xs t)
     = huge_posted t @ hugeq t @ announced xs"
  by (simp add: process_some_def post_pending_huge fold_deliver_huge)

lemma serve_huge:
  "huge_posted (serve bs t) @ hugeq (serve bs t)
     = huge_posted t @ hugeq t @ announced (concat bs)"
proof (induction bs arbitrary: t)
  case Nil
  then show ?case by (simp add: serve_def)
next
  case (Cons b bs)
  from Cons [of "process_some b t"] process_some_huge [of b t] show ?case
    by (simp add: serve_def announced_append)
qed

text \<open>
  C6: the descriptors of announced huge messages are consumed in the order in which they
  were queued, source by source: at any time the descriptors of a source for which an
  oversize receive was posted, in the order of posting, followed by those of the source
  still in \<^verbatim>\<open>hugeq\<close>, are the descriptors of the source in the order of their arrival.
\<close>

theorem huge_fifo:
  "filter (\<lambda>d. fst d = s) (huge_posted (serve bs t)) @ filter (\<lambda>d. fst d = s) (hugeq (serve bs t))
     = filter (\<lambda>d. fst d = s) (huge_posted t) @ filter (\<lambda>d. fst d = s) (hugeq t)
       @ filter (\<lambda>d. fst d = s) (announced (concat bs))"
proof -
  have "filter (\<lambda>d. fst d = s) (huge_posted (serve bs t) @ hugeq (serve bs t))
          = filter (\<lambda>d. fst d = s) (huge_posted t @ hugeq t @ announced (concat bs))"
    by (simp only: serve_huge)
  then show ?thesis by simp
qed

text \<open>
  The scenario \<open>huge0\<close>: the first descriptor is posted at once and the other two wait;
  when the huge message has been dispatched its buffer is released and the descriptor of
  rank 2, the oldest in the queue, is posted.
\<close>

lemma huge_scenario:
  "huge_posted (serve [hd huge0] task0) = [(0, 2000000)]
   \<and> hugeq (serve [hd huge0] task0) = [(2, 3000000), (0, 4000000)]
   \<and> huge_posted (serve huge0 task0) = [(0, 2000000), (2, 3000000)]
   \<and> hugeq (serve huge0 task0) = [(0, 4000000)]"
  by (simp add: huge0_def task0_def serve_def process_some_def huge_msg_handler_def
      post_pending_huge_msg_def post_recv_buf_def on_receive_def dispatch_def
      is_ordered_def ATTR_UNORDERED_def ATTR_ORDERED_def)

section \<open>Ordered delivery\<close>

lemma is_ordered_consts [simp]: "is_ordered ATTR_ORDERED" "\<not> is_ordered ATTR_UNORDERED"
  by (simp_all add: is_ordered_def ATTR_ORDERED_def ATTR_UNORDERED_def)

text \<open>Counters stamped without wrap-around grow along the list.\<close>

lemma unat_succ: "unat (c :: counterT) + 1 < 2 ^ 16 \<Longrightarrow> unat (c + 1) = unat c + 1"
  by (simp add: unat_word_ariths)

lemma stamped_mem: "stamped a c ms \<Longrightarrow> x \<in> set ms \<Longrightarrow> from_ordered a x"
  by (induction ms arbitrary: c) (auto simp: from_ordered_def)

lemma stamped_ge:
  "stamped a c ms \<Longrightarrow> unat c + length ms \<le> 2 ^ 16 \<Longrightarrow> x \<in> set ms \<Longrightarrow> unat c \<le> unat (count x)"
proof (induction ms arbitrary: c)
  case Nil
  then show ?case by simp
next
  case (Cons m ms)
  show ?case
  proof (cases "x = m")
    case True
    with Cons.prems show ?thesis by simp
  next
    case False
    with Cons.prems have x: "x \<in> set ms" by simp
    then have "length ms \<ge> 1" by (cases ms) auto
    with Cons.prems(2) have lt: "unat c + 1 < 2 ^ 16" by simp
    then have s: "unat (c + 1) = unat c + 1" by (rule unat_succ)
    with Cons.prems have "unat (c + 1) + length ms \<le> 2 ^ 16" by simp
    with Cons.IH [of "c + 1"] Cons.prems(1) x have "unat (c + 1) \<le> unat (count x)" by simp
    with s show ?thesis by simp
  qed
qed

lemma stamped_tail_gt:
  assumes "stamped a c (m # ms)" and "unat c + length (m # ms) \<le> 2 ^ 16" and "x \<in> set ms"
  shows "unat c < unat (count x)"
proof -
  from assms(3) have "length ms \<ge> 1" by (cases ms) auto
  with assms(2) have lt: "unat c + 1 < 2 ^ 16" by simp
  then have s: "unat (c + 1) = unat c + 1" by (rule unat_succ)
  from assms(1) have st: "stamped a (c + 1) ms" by simp
  from assms(2) s have "unat (c + 1) + length ms \<le> 2 ^ 16" by simp
  from stamped_ge [OF st this assms(3)] s show ?thesis by simp
qed

lemma stamped_head:
  assumes "stamped a c rest" and "unat c + length rest \<le> 2 ^ 16" and "x \<in> set rest"
    and "count x = c"
  shows "\<exists>rs. rest = x # rs \<and> stamped a (c + 1) rs \<and> unat (c + 1) + length rs \<le> 2 ^ 16"
proof (cases rest)
  case Nil
  with assms(3) show ?thesis by simp
next
  case (Cons m rs)
  have "x = m"
  proof (rule ccontr)
    assume "x \<noteq> m"
    with assms(3) Cons have "x \<in> set rs" by simp
    from stamped_tail_gt [OF assms(1) [unfolded Cons] assms(2) [unfolded Cons] this] assms(4)
    show False by simp
  qed
  moreover from assms(1) Cons have st: "stamped a (c + 1) rs" by simp
  moreover have "unat (c + 1) + length rs \<le> 2 ^ 16"
  proof (cases rs)
    case Nil
    have "unat (c + 1) < 2 ^ 16"
      using unsigned_less [of "c + 1", where 'a = nat] by simp
    with Nil show ?thesis by simp
  next
    case (Cons r rs')
    with assms(2) \<open>rest = m # rs\<close> have "unat c + 1 < 2 ^ 16" by simp
    then have "unat (c + 1) = unat c + 1" by (rule unat_succ)
    with assms(2) \<open>rest = m # rs\<close> show ?thesis by simp
  qed
  ultimately show ?thesis using Cons by simp
qed

lemma stamped_sorted:
  "stamped a c ms \<Longrightarrow> unat c + length ms \<le> 2 ^ 16 \<Longrightarrow> sorted_wrt qmsg_less ms"
proof (induction ms arbitrary: c)
  case Nil
  then show ?case by simp
next
  case (Cons m ms)
  from Cons.prems(1) have cm: "count m = c" and st: "stamped a (c + 1) ms"
    by simp_all
  have hd: "\<forall>x\<in>set ms. qmsg_less m x"
  proof
    fix x assume "x \<in> set ms"
    from stamped_tail_gt [OF Cons.prems this] cm show "qmsg_less m x"
      by (simp add: qmsg_less_def word_less_nat_alt)
  qed
  have "sorted_wrt qmsg_less ms"
  proof (cases ms)
    case Nil
    then show ?thesis by simp
  next
    case (Cons r rs)
    with Cons.prems(2) have "unat c + 1 < 2 ^ 16" by simp
    then have "unat (c + 1) = unat c + 1" by (rule unat_succ)
    with Cons.prems(2) have "unat (c + 1) + length ms \<le> 2 ^ 16" by simp
    with st show ?thesis by (rule Cons.IH)
  qed
  with hd show ?case by simp
qed

lemma drain_settles:
  "ord_inv a D t R \<Longrightarrow> ord_inv a D (drain a t) R \<and> settled a (drain a t)"
proof (induction a t rule: drain.induct)
  case (1 a t)
  let ?c = "recv_counters t a"
  from "1.prems" obtain rest where st: "stamped a ?c rest"
    and bd: "unat ?c + length rest \<le> 2 ^ 16"
    and ms: "mset (pending a t) + R = mset rest"
    and dd: "filter (from_ordered a) (invoked t) @ rest = D"
    unfolding ord_inv_def by blast
  have sub: "x \<in> set rest" if "x \<in> set (pending a t)" for x
  proof -
    from that have "x \<in># mset (pending a t) + R" by simp
    with ms show ?thesis by simp
  qed
  show ?case
  proof (cases "heap_min (pending a t)")
    case None
    then have "pending a t = []" by (simp add: heap_min_None)
    with None "1.prems" show ?thesis by (simp add: drain.simps settled_def)
  next
    case (Some m)
    then have mp: "m \<in> set (pending a t)" by (rule heap_min_mem)
    then have mr: "m \<in> set rest" by (rule sub)
    show ?thesis
    proof (cases "count m = ?c")
      case True
      let ?t1 = "advance a (dispatch m (t\<lparr>q := remove1 m (q t)\<rparr>))"
      from Some True have eq: "drain a t = drain a ?t1"
        by (simp add: drain.simps [of a t])
      from stamped_head [OF st bd mr True] obtain rs where rest: "rest = m # rs"
        and st1: "stamped a (?c + 1) rs" and bd1: "unat (?c + 1) + length rs \<le> 2 ^ 16"
        by blast
      have fo: "from_ordered a m" using st mr by (rule stamped_mem)
      from mp have "m \<in># mset (pending a t)" by simp
      then obtain A where A: "mset (pending a t) = add_mset m A"
        by (blast dest: multi_member_split)
      then have "mset (remove1 m (pending a t)) = A" by simp
      moreover from ms rest A have "A + R = mset rs" by simp
      ultimately have ms1: "mset (remove1 m (pending a t)) + R = mset rs" by simp
      have "ord_inv a D ?t1 R"
        unfolding ord_inv_def
      proof (intro exI [of _ rs] conjI)
        show "stamped a (recv_counters ?t1 a) rs" using st1 by simp
        show "unat (recv_counters ?t1 a) + length rs \<le> 2 ^ 16" using bd1 by simp
        show "mset (pending a ?t1) + R = mset rs" using ms1 by simp
        show "filter (from_ordered a) (invoked ?t1) @ rs = D" using dd rest fo by simp
      qed
      from "1.IH" [OF Some True this] eq show ?thesis by simp
    next
      case False
      from Some False have eq: "drain a t = t"
        by (simp add: drain.simps [of a t])
      have "settled a t"
        unfolding settled_def
      proof
        fix x assume x: "x \<in> set (pending a t)"
        from heap_min_le [OF Some x] have "unat (count m) \<le> unat (count x)"
          by (simp add: word_le_nat_alt)
        moreover from stamped_ge [OF st bd mr] have "unat ?c \<le> unat (count m)" .
        moreover from False have "unat (count m) \<noteq> unat ?c"
          by (simp add: word_unat_eq_iff)
        ultimately have "unat (count x) \<noteq> unat ?c" by simp
        then show "count x \<noteq> ?c" by auto
      qed
      with eq "1.prems" show ?thesis by simp
    qed
  qed
qed

lemma on_receive_in:
  assumes fo: "from_ordered a m" and inv: "ord_inv a D t (add_mset m R)" and se: "settled a t"
  shows "ord_inv a D (on_receive m t) R \<and> settled a (on_receive m t)"
proof -
  let ?c = "recv_counters t a"
  from fo have sm: "src m = a" and om: "is_ordered (attr m)"
    by (simp_all add: from_ordered_def)
  from inv obtain rest where st: "stamped a ?c rest"
    and bd: "unat ?c + length rest \<le> 2 ^ 16"
    and ms: "mset (pending a t) + add_mset m R = mset rest"
    and dd: "filter (from_ordered a) (invoked t) @ rest = D"
    unfolding ord_inv_def by blast
  have "m \<in># mset (pending a t) + add_mset m R" by simp
  with ms have mr: "m \<in> set rest" by simp
  show ?thesis
  proof (cases "count m = ?c")
    case True
    let ?t1 = "advance a (dispatch m t)"
    from True sm om have eq: "on_receive m t = drain a ?t1"
      by (simp add: on_receive_def)
    from stamped_head [OF st bd mr True] obtain rs where rest: "rest = m # rs"
      and st1: "stamped a (?c + 1) rs" and bd1: "unat (?c + 1) + length rs \<le> 2 ^ 16"
      by blast
    have "ord_inv a D ?t1 R"
      unfolding ord_inv_def
    proof (intro exI [of _ rs] conjI)
      show "stamped a (recv_counters ?t1 a) rs" using st1 by simp
      show "unat (recv_counters ?t1 a) + length rs \<le> 2 ^ 16" using bd1 by simp
      show "mset (pending a ?t1) + R = mset rs" using ms rest by simp
      show "filter (from_ordered a) (invoked ?t1) @ rs = D" using dd rest fo by simp
    qed
    then show ?thesis unfolding eq by (rule drain_settles)
  next
    case False
    with sm om have eq: "on_receive m t = t\<lparr>q := q t @ [m]\<rparr>"
      by (simp add: on_receive_def)
    have "ord_inv a D (t\<lparr>q := q t @ [m]\<rparr>) R"
      unfolding ord_inv_def
    proof (intro exI [of _ rest] conjI)
      show "stamped a (recv_counters (t\<lparr>q := q t @ [m]\<rparr>) a) rest" using st by simp
      show "unat (recv_counters (t\<lparr>q := q t @ [m]\<rparr>) a) + length rest \<le> 2 ^ 16" using bd by simp
      show "mset (pending a (t\<lparr>q := q t @ [m]\<rparr>)) + R = mset rest" using ms sm by simp
      show "filter (from_ordered a) (invoked (t\<lparr>q := q t @ [m]\<rparr>)) @ rest = D" using dd by simp
    qed
    moreover from se False sm have "settled a (t\<lparr>q := q t @ [m]\<rparr>)"
      by (simp add: settled_def)
    ultimately show ?thesis unfolding eq by simp
  qed
qed

lemma post_pending_frame [simp]:
  "q (post_pending_huge_msg t) = q t"
  "recv_counters (post_pending_huge_msg t) = recv_counters t"
  "invoked (post_pending_huge_msg t) = invoked t"
  "pending a (post_pending_huge_msg t) = pending a t"
  by (simp_all add: post_pending_huge_msg_def pending_def split: option.splits list.splits)

lemma huge_msg_handler_frame [simp]:
  "q (huge_msg_handler s n t) = q t"
  "recv_counters (huge_msg_handler s n t) = recv_counters t"
  "invoked (huge_msg_handler s n t) = invoked t"
  "pending a (huge_msg_handler s n t) = pending a t"
  by (simp_all add: huge_msg_handler_def pending_def)

lemma on_receive_other:
  assumes "src m \<noteq> a"
  shows "recv_counters (on_receive m t) a = recv_counters t a
       \<and> pending a (on_receive m t) = pending a t
       \<and> (\<exists>ms. invoked (on_receive m t) = invoked t @ ms \<and> (\<forall>x\<in>set ms. src x = src m))"
proof (cases "is_ordered (attr m) \<and> count m = recv_counters t (src m)")
  case True
  let ?t1 = "advance (src m) (dispatch m t)"
  from True have eq: "on_receive m t = drain (src m) ?t1"
    by (simp add: on_receive_def)
  from assms have ne: "a \<noteq> src m" by simp
  from drain_frame [of "src m" ?t1] have
    fr: "\<forall>a. a \<noteq> src m \<longrightarrow> recv_counters (drain (src m) ?t1) a = recv_counters ?t1 a
           \<and> pending a (drain (src m) ?t1) = pending a ?t1"
    and ex: "\<exists>ms. invoked (drain (src m) ?t1) = invoked ?t1 @ ms \<and> (\<forall>x\<in>set ms. src x = src m)"
    by simp_all
  from ex obtain ms where
    iv: "invoked (drain (src m) ?t1) = invoked ?t1 @ ms" and sm: "\<forall>x\<in>set ms. src x = src m"
    by blast
  from fr ne have "recv_counters (drain (src m) ?t1) a = recv_counters ?t1 a"
    and "pending a (drain (src m) ?t1) = pending a ?t1"
    by simp_all
  with iv sm ne have "recv_counters (on_receive m t) a = recv_counters t a
       \<and> pending a (on_receive m t) = pending a t
       \<and> invoked (on_receive m t) = invoked t @ (m # ms) \<and> (\<forall>x\<in>set (m # ms). src x = src m)"
    by (simp add: eq)
  then show ?thesis by blast
next
  case False
  then consider "\<not> is_ordered (attr m)" | "is_ordered (attr m)" "count m \<noteq> recv_counters t (src m)"
    by blast
  then show ?thesis
  proof cases
    case 1
    then have eq: "on_receive m t = dispatch m t" by (simp add: on_receive_def)
    have "invoked (dispatch m t) = invoked t @ [m] \<and> (\<forall>x\<in>set [m]. src x = src m)" by simp
    then show ?thesis unfolding eq by simp
  next
    case 2
    then have eq: "on_receive m t = t\<lparr>q := q t @ [m]\<rparr>" by (simp add: on_receive_def)
    show ?thesis unfolding eq using assms by simp
  qed
qed

lemma view_cong:
  assumes "recv_counters t' a = recv_counters t a" and "pending a t' = pending a t"
    and "filter (from_ordered a) (invoked t') = filter (from_ordered a) (invoked t)"
  shows "ord_inv a D t' R = ord_inv a D t R" and "settled a t' = settled a t"
  using assms by (simp_all add: ord_inv_def settled_def)

lemma on_receive_out:
  assumes nf: "\<not> from_ordered a m"
  shows "recv_counters (on_receive m t) a = recv_counters t a
       \<and> pending a (on_receive m t) = pending a t
       \<and> filter (from_ordered a) (invoked (on_receive m t)) = filter (from_ordered a) (invoked t)"
proof (cases "src m = a")
  case True
  with nf have "\<not> is_ordered (attr m)" by (simp add: from_ordered_def)
  then have "on_receive m t = dispatch m t" by (simp add: on_receive_def)
  with nf show ?thesis by simp
next
  case False
  from on_receive_other [OF False, of t] obtain ms where
    a: "recv_counters (on_receive m t) a = recv_counters t a"
    and b: "pending a (on_receive m t) = pending a t"
    and c: "invoked (on_receive m t) = invoked t @ ms" and d: "\<forall>x\<in>set ms. src x = src m"
    by blast
  from d False have "filter (from_ordered a) ms = []"
    by (auto simp: from_ordered_def filter_empty_conv)
  with a b c show ?thesis by simp
qed

lemma deliver_inv:
  assumes "ord_inv a D t (mset (filter (from_ordered a) (msgs [x])) + R)" and "settled a t"
  shows "ord_inv a D (deliver x t) R \<and> settled a (deliver x t)"
proof (cases x)
  case (Msg m)
  show ?thesis
  proof (cases "from_ordered a m")
    case True
    with assms Msg show ?thesis by (simp add: on_receive_in)
  next
    case False
    from on_receive_out [OF False, of t]
    have v: "recv_counters (on_receive m t) a = recv_counters t a"
      "pending a (on_receive m t) = pending a t"
      "filter (from_ordered a) (invoked (on_receive m t)) = filter (from_ordered a) (invoked t)"
      by simp_all
    from assms(1) Msg False have "ord_inv a D t R" by simp
    with assms(2) show ?thesis
      unfolding Msg deliver.simps by (simp only: view_cong [OF v])
  qed
next
  case (Announce k s n)
  have v: "recv_counters (deliver x t) a = recv_counters t a"
    "pending a (deliver x t) = pending a t"
    "filter (from_ordered a) (invoked (deliver x t)) = filter (from_ordered a) (invoked t)"
    unfolding Announce by simp_all
  from assms Announce have "ord_inv a D t R" by simp
  with assms(2) show ?thesis
    by (simp only: view_cong [OF v])
qed

lemma msgs_append: "msgs (xs @ ys) = msgs xs @ msgs ys"
  by (induction xs rule: msgs.induct) simp_all

lemma fold_deliver_inv:
  "ord_inv a D t (mset (filter (from_ordered a) (msgs xs)) + R) \<Longrightarrow> settled a t
   \<Longrightarrow> ord_inv a D (fold deliver xs t) R \<and> settled a (fold deliver xs t)"
proof (induction xs arbitrary: t)
  case Nil
  then show ?case by simp
next
  case (Cons x xs)
  have "msgs (x # xs) = msgs [x] @ msgs xs"
    using msgs_append [of "[x]" xs] by simp
  then have "mset (filter (from_ordered a) (msgs (x # xs))) + R
          = mset (filter (from_ordered a) (msgs [x])) + (mset (filter (from_ordered a) (msgs xs)) + R)"
    by (simp only: filter_append mset_append add.assoc)
  with Cons.prems(1)
  have "ord_inv a D t (mset (filter (from_ordered a) (msgs [x]))
                        + (mset (filter (from_ordered a) (msgs xs)) + R))"
    by (simp only:)
  from deliver_inv [OF this Cons.prems(2)] Cons.IH [of "deliver x t"] show ?case
    by simp
qed

lemma process_some_inv:
  assumes "ord_inv a D t (mset (filter (from_ordered a) (msgs xs)) + R)" and "settled a t"
  shows "ord_inv a D (process_some xs t) R \<and> settled a (process_some xs t)"
proof -
  have v: "recv_counters (process_some xs t) a = recv_counters (fold deliver xs t) a"
    "pending a (process_some xs t) = pending a (fold deliver xs t)"
    "filter (from_ordered a) (invoked (process_some xs t))
       = filter (from_ordered a) (invoked (fold deliver xs t))"
    unfolding process_some_def by simp_all
  from fold_deliver_inv [OF assms] show ?thesis
    by (simp only: view_cong [OF v])
qed

lemma serve_inv:
  "ord_inv a D t (mset (filter (from_ordered a) (msgs (concat bs))) + R) \<Longrightarrow> settled a t
   \<Longrightarrow> ord_inv a D (serve bs t) R \<and> settled a (serve bs t)"
proof (induction bs arbitrary: t)
  case Nil
  then show ?case by (simp add: serve_def)
next
  case (Cons b bs)
  have "mset (filter (from_ordered a) (msgs (concat (b # bs)))) + R
          = mset (filter (from_ordered a) (msgs b))
            + (mset (filter (from_ordered a) (msgs (concat bs))) + R)"
    by (simp only: concat.simps msgs_append filter_append mset_append add.assoc)
  with Cons.prems(1)
  have "ord_inv a D t (mset (filter (from_ordered a) (msgs b))
                        + (mset (filter (from_ordered a) (msgs (concat bs))) + R))"
    by (simp only:)
  from process_some_inv [OF this Cons.prems(2)] Cons.IH [of "process_some b t"] show ?case
    by (simp add: serve_def)
qed

text \<open>
  C1, as the claim states it, fails where the counter wraps around: \<open>w1\<close> and \<open>w2\<close> are
  two ordered sends of rank 0 stamped one after the other, \<open>w2\<close> has the smaller counter,
  and they arrive in the order they were sent; the handler is invoked for \<open>w1\<close> first.
\<close>

theorem smaller_counter_later_at_wrap:
  "stamped 0 (recv_counters task_wrap 0) [w1, w2] \<and> qmsg_less w2 w1
   \<and> invoked (serve [[Msg w1, Msg w2]] task_wrap) = [w1, w2]"
  by (simp add: task_wrap_def task0_def w1_def w2_def qmsg_less_def serve_def process_some_def
      on_receive_def drain.simps pending_def dispatch_def advance_def post_recv_buf_def
      post_pending_huge_msg_def)

text \<open>
  C1, amended: let the ordered sends of source \<open>a\<close> to this rank be \<open>sends\<close>, stamped in this order
  from the expectation of the receiver on, the counters not wrapping around, and let
  nothing of \<open>a\<close> be pending at the start. Whatever the order in which the transport
  delivers them, in whatever batches and mixed with whatever other traffic, the handler
  invocations for them happen in the order of the counters: the ordered messages of \<open>a\<close>
  among the invocations are \<open>sends\<close>, which ascends in \<^verbatim>\<open>operator<\<close>. Invocations are made one
  after the other by the one server thread, so an earlier one has returned when the next
  begins.
\<close>

theorem ordered_delivery:
  assumes st: "stamped a (recv_counters t a) sends"
    and bd: "unat (recv_counters t a) + length sends \<le> 2 ^ 16"
    and em: "pending a t = []"
    and ar: "mset (filter (from_ordered a) (msgs (concat bs))) = mset sends"
  shows "filter (from_ordered a) (invoked (serve bs t)) = filter (from_ordered a) (invoked t) @ sends
       \<and> sorted_wrt qmsg_less sends"
proof -
  let ?D = "filter (from_ordered a) (invoked t) @ sends"
  from st bd em ar have "ord_inv a ?D t (mset (filter (from_ordered a) (msgs (concat bs))) + {#})"
    unfolding ord_inv_def by (intro exI [of _ sends]) simp
  moreover from em have "settled a t" by (simp add: settled_def)
  ultimately have "ord_inv a ?D (serve bs t) {#} \<and> settled a (serve bs t)"
    by (rule serve_inv)
  then have inv: "ord_inv a ?D (serve bs t) {#}" and se: "settled a (serve bs t)"
    by simp_all
  let ?t = "serve bs t"
  from inv obtain rest where st': "stamped a (recv_counters ?t a) rest"
    and ms: "mset (pending a ?t) = mset rest"
    and dd: "filter (from_ordered a) (invoked ?t) @ rest = ?D"
    unfolding ord_inv_def by auto
  have "rest = []"
  proof (cases rest)
    case Nil
    then show ?thesis .
  next
    case (Cons r rs)
    with st' have c: "count r = recv_counters ?t a" by simp
    from Cons have "r \<in># mset rest" by simp
    with ms have "r \<in> set (pending a ?t)" by (metis set_mset_mset)
    with se c show ?thesis by (simp add: settled_def)
  qed
  with dd stamped_sorted [OF st bd] show ?thesis by simp
qed

theorem ordered_delivery_witness:
  "stamped 0 (recv_counters task0 0) [m0, m1, m2]
   \<and> unat (recv_counters task0 0) + length [m0, m1, m2] \<le> 2 ^ 16
   \<and> pending 0 task0 = []
   \<and> mset (filter (from_ordered 0) (msgs (concat arrivals0))) = mset [m0, m1, m2]
   \<and> filter (from_ordered 0) (invoked (serve arrivals0 task0)) = [m0, m1, m2]"
proof -
  have h1: "stamped 0 (recv_counters task0 0) [m0, m1, m2]"
    by (simp add: task0_def m0_def m1_def m2_def)
  have h2: "unat (recv_counters task0 0) + length [m0, m1, m2] \<le> 2 ^ 16"
    by (simp add: task0_def)
  have h3: "pending 0 task0 = []"
    by (simp add: task0_def pending_def)
  have h4: "mset (filter (from_ordered 0) (msgs (concat arrivals0))) = mset [m0, m1, m2]"
    by (simp add: arrivals0_def from_ordered_def m0_def m1_def m2_def u0_def n5_def)
  have "invoked task0 = []"
    by (simp add: task0_def)
  with ordered_delivery [OF h1 h2 h3 h4] h1 h2 h3 h4 show ?thesis
    by simp
qed

text \<open>The whole trace of the scenario: \<open>u0\<close> comes where it arrived, \<open>n5\<close> stays queued.\<close>

lemma scenario_trace: "invoked (serve arrivals0 task0) = [u0, m0, m1, m2] \<and> q (serve arrivals0 task0) = [n5]"
  by (simp add: arrivals0_def task0_def serve_def process_some_def on_receive_def
      m0_def m1_def m2_def u0_def n5_def drain.simps pending_def dispatch_def advance_def
      post_recv_buf_def post_pending_huge_msg_def qmsg_less_def)

section \<open>One queue for all sources\<close>

text \<open>
  C3, as the claim states it, fails: there is one queue \<^verbatim>\<open>q\<close> with one fill count
  \<^verbatim>\<open>n_in_q\<close>, not one per source. After an early message of rank 0 and an early message of
  rank 2 have arrived, both are entries of this queue.
\<close>

theorem one_queue_holds_two_sources:
  "map src (q (serve [[Msg m2, Msg n5]] task0)) = [0, 2]
   \<and> n_in_q (serve [[Msg m2, Msg n5]] task0) = 2"
  by (simp add: task0_def serve_def process_some_def on_receive_def n_in_q_def
      m2_def n5_def post_pending_huge_msg_def)

text \<open>The view of a source is changed by its own arrivals only.\<close>

lemma view_eq_iff:
  "view a t = view a t' \<longleftrightarrow>
     recv_counters t a = recv_counters t' a \<and> pending a t = pending a t'
     \<and> filter (\<lambda>m. src m = a) (invoked t) = filter (\<lambda>m. src m = a) (invoked t')"
  by (simp add: view_def)

lemma drain_view:
  "view a t = view a t' \<Longrightarrow> view a (drain a t) = view a (drain a t')"
proof (induction a t arbitrary: t' rule: drain.induct)
  case (1 a t)
  from "1.prems" have c: "recv_counters t' a = recv_counters t a"
    and p: "pending a t' = pending a t"
    and f: "filter (\<lambda>m. src m = a) (invoked t') = filter (\<lambda>m. src m = a) (invoked t)"
    by (simp_all add: view_eq_iff)
  show ?case
  proof (cases "heap_min (pending a t)")
    case None
    with p have "drain a t = t" and "drain a t' = t'" by (simp_all add: drain.simps)
    with "1.prems" show ?thesis by simp
  next
    case (Some m)
    then have sm: "src m = a"
      by (auto dest: heap_min_mem simp: pending_def)
    show ?thesis
    proof (cases "count m = recv_counters t a")
      case True
      let ?t1 = "advance a (dispatch m (t\<lparr>q := remove1 m (q t)\<rparr>))"
      let ?t1' = "advance a (dispatch m (t'\<lparr>q := remove1 m (q t')\<rparr>))"
      from Some True have eq: "drain a t = drain a ?t1"
        by (simp add: drain.simps [of a t])
      from Some True p c have eq': "drain a t' = drain a ?t1'"
        by (simp add: drain.simps [of a t'])
      from c p f sm have "view a ?t1 = view a ?t1'"
        by (simp add: view_eq_iff)
      from "1.IH" [OF Some True this] eq eq' show ?thesis by simp
    next
      case False
      with Some p c have "drain a t = t" and "drain a t' = t'"
        by (simp_all add: drain.simps [of a t] drain.simps [of a t'])
      with "1.prems" show ?thesis by simp
    qed
  qed
qed

lemma on_receive_view_same:
  assumes "src m = a" and "view a t = view a t'"
  shows "view a (on_receive m t) = view a (on_receive m t')"
proof -
  from assms(2) have c: "recv_counters t' a = recv_counters t a"
    and p: "pending a t' = pending a t"
    and f: "filter (\<lambda>m. src m = a) (invoked t') = filter (\<lambda>m. src m = a) (invoked t)"
    by (simp_all add: view_eq_iff)
  consider "\<not> is_ordered (attr m)"
    | "is_ordered (attr m)" "count m = recv_counters t a"
    | "is_ordered (attr m)" "count m \<noteq> recv_counters t a"
    by blast
  then show ?thesis
  proof cases
    case 1
    with assms(1) c p f show ?thesis by (simp add: on_receive_def view_eq_iff)
  next
    case 2
    from assms(1) c p f have "view a (advance a (dispatch m t)) = view a (advance a (dispatch m t'))"
      by (simp add: view_eq_iff)
    then have "view a (drain a (advance a (dispatch m t))) = view a (drain a (advance a (dispatch m t')))"
      by (rule drain_view)
    with 2 assms(1) c show ?thesis by (simp add: on_receive_def)
  next
    case 3
    with assms(1) c p f show ?thesis by (simp add: on_receive_def view_eq_iff)
  qed
qed

lemma on_receive_view_other:
  assumes "src m \<noteq> a"
  shows "view a (on_receive m t) = view a t"
proof -
  from on_receive_other [OF assms, of t] obtain ms where
    a: "recv_counters (on_receive m t) a = recv_counters t a"
    and b: "pending a (on_receive m t) = pending a t"
    and c: "invoked (on_receive m t) = invoked t @ ms" and d: "\<forall>x\<in>set ms. src x = src m"
    by blast
  from d assms have "filter (\<lambda>m. src m = a) ms = []"
    by (auto simp: filter_empty_conv)
  with a b c show ?thesis by (simp add: view_eq_iff)
qed

lemma deliver_view_other: "\<not> from_rank a x \<Longrightarrow> view a (deliver x t) = view a t"
  by (cases x) (simp_all add: on_receive_view_other, simp add: view_eq_iff)

lemma deliver_view_same:
  "from_rank a x \<Longrightarrow> view a t = view a t' \<Longrightarrow> view a (deliver x t) = view a (deliver x t')"
proof (cases x)
  case (Msg m)
  assume "from_rank a x" and v: "view a t = view a t'"
  with Msg have "src m = a" by simp
  from on_receive_view_same [OF this v] Msg show ?thesis by simp
next
  case (Announce k s n)
  assume "from_rank a x"
  with Announce show ?thesis by simp
qed

lemma fold_deliver_view:
  "view a t = view a t' \<Longrightarrow>
   view a (fold deliver xs t) = view a (fold deliver (filter (from_rank a) xs) t')"
proof (induction xs arbitrary: t t')
  case Nil
  then show ?case by simp
next
  case (Cons x xs)
  show ?case
  proof (cases "from_rank a x")
    case True
    from deliver_view_same [OF True Cons.prems] have "view a (deliver x t) = view a (deliver x t')" .
    from Cons.IH [OF this] True show ?thesis by simp
  next
    case False
    with Cons.prems have "view a (deliver x t) = view a t'"
      by (simp add: deliver_view_other)
    from Cons.IH [OF this] False show ?thesis by simp
  qed
qed

lemma post_pending_view: "view a (post_pending_huge_msg t) = view a t"
  by (simp add: view_eq_iff)

lemma process_some_view:
  "view a t = view a t' \<Longrightarrow>
   view a (process_some xs t) = view a (process_some (filter (from_rank a) xs) t')"
  unfolding process_some_def post_pending_view by (rule fold_deliver_view)

lemma serve_view:
  "view a t = view a t' \<Longrightarrow>
   view a (serve bs t) = view a (serve (map (filter (from_rank a)) bs) t')"
proof (induction bs arbitrary: t t')
  case Nil
  then show ?case by (simp add: serve_def)
next
  case (Cons b bs)
  from process_some_view [OF Cons.prems, of b]
  have "view a (process_some b t) = view a (process_some (filter (from_rank a) b) t')" .
  from Cons.IH [OF this] show ?case by (simp add: serve_def)
qed

text \<open>A message that was received is in the queue or was dispatched.\<close>

lemma drain_conserves:
  "mset (q (drain s t)) + mset (invoked (drain s t)) = mset (q t) + mset (invoked t)"
proof (induction s t rule: drain.induct)
  case (1 s t)
  show ?case
  proof (cases "heap_min (pending s t)")
    case None
    then show ?thesis by (simp add: drain.simps)
  next
    case (Some m)
    then have mq: "m \<in> set (q t)"
      by (auto dest: heap_min_mem simp: pending_def)
    show ?thesis
    proof (cases "count m = recv_counters t s")
      case True
      let ?t1 = "advance s (dispatch m (t\<lparr>q := remove1 m (q t)\<rparr>))"
      from Some True have eq: "drain s t = drain s ?t1"
        by (simp add: drain.simps [of s t])
      from mq have "m \<in># mset (q t)" by simp
      then obtain A where A: "mset (q t) = add_mset m A"
        by (blast dest: multi_member_split)
      then have "mset (remove1 m (q t)) = A" by simp
      then have "mset (q ?t1) + mset (invoked ?t1) = A + add_mset m (mset (invoked t))" by simp
      with A "1.IH" [OF Some True] show ?thesis by (simp add: eq)
    next
      case False
      with Some show ?thesis by (simp add: drain.simps)
    qed
  qed
qed

lemma on_receive_conserves:
  "mset (q (on_receive m t)) + mset (invoked (on_receive m t))
     = add_mset m (mset (q t) + mset (invoked t))"
  by (simp add: on_receive_def drain_conserves)

lemma deliver_conserves:
  "mset (q (deliver x t)) + mset (invoked (deliver x t))
     = mset (msgs [x]) + (mset (q t) + mset (invoked t))"
  by (cases x) (simp_all add: on_receive_conserves)

lemma fold_deliver_conserves:
  "mset (q (fold deliver xs t)) + mset (invoked (fold deliver xs t))
     = mset (msgs xs) + (mset (q t) + mset (invoked t))"
proof (induction xs arbitrary: t)
  case Nil
  then show ?case by simp
next
  case (Cons x xs)
  have "msgs (x # xs) = msgs [x] @ msgs xs"
    using msgs_append [of "[x]" xs] by simp
  then have "mset (msgs (x # xs)) = mset (msgs [x]) + mset (msgs xs)"
    by (simp only: mset_append)
  with Cons [of "deliver x t"] deliver_conserves [of x t] show ?case
    by (simp add: ac_simps)
qed

lemma process_some_conserves:
  "mset (q (process_some xs t)) + mset (invoked (process_some xs t))
     = mset (msgs xs) + (mset (q t) + mset (invoked t))"
  by (simp add: process_some_def fold_deliver_conserves)

lemma serve_conserves:
  "mset (q (serve bs t)) + mset (invoked (serve bs t))
     = mset (msgs (concat bs)) + (mset (q t) + mset (invoked t))"
proof (induction bs arbitrary: t)
  case Nil
  then show ?case by (simp add: serve_def)
next
  case (Cons b bs)
  from Cons [of "process_some b t"] process_some_conserves [of b t] show ?case
    by (simp add: serve_def msgs_append ac_simps)
qed

text \<open>Only ordered messages are put into the queue.\<close>

lemma qord_remove1: "qord t \<Longrightarrow> qord (t\<lparr>q := remove1 m (q t)\<rparr>)"
  by (auto simp: qord_def list_all_iff dest: notin_set_remove1)

lemma qord_frame [simp]:
  "qord (dispatch m t) = qord t" "qord (advance s t) = qord t"
  "qord (post_recv_buf k t) = qord t"
  by (simp_all add: qord_def)

lemma drain_qord: "qord t \<Longrightarrow> qord (drain s t)"
proof (induction s t rule: drain.induct)
  case (1 s t)
  show ?case
  proof (cases "heap_min (pending s t)")
    case None
    with "1.prems" show ?thesis by (simp add: drain.simps)
  next
    case (Some m)
    show ?thesis
    proof (cases "count m = recv_counters t s")
      case True
      let ?t1 = "advance s (dispatch m (t\<lparr>q := remove1 m (q t)\<rparr>))"
      from Some True have eq: "drain s t = drain s ?t1"
        by (simp add: drain.simps [of s t])
      from "1.prems" have "qord ?t1" by (simp add: qord_remove1)
      from "1.IH" [OF Some True this] eq show ?thesis by simp
    next
      case False
      with Some "1.prems" show ?thesis by (simp add: drain.simps)
    qed
  qed
qed

lemma on_receive_qord: "qord t \<Longrightarrow> qord (on_receive m t)"
  by (auto simp: on_receive_def drain_qord) (simp add: qord_def)

lemma deliver_qord: "qord t \<Longrightarrow> qord (deliver x t)"
  by (cases x) (simp_all add: on_receive_qord, simp add: qord_def)

lemma fold_deliver_qord: "qord t \<Longrightarrow> qord (fold deliver xs t)"
  by (induction xs arbitrary: t) (simp_all add: deliver_qord)

lemma process_some_qord: "qord t \<Longrightarrow> qord (process_some xs t)"
  using fold_deliver_qord [of t xs] by (simp add: process_some_def qord_def)

lemma serve_qord: "qord t \<Longrightarrow> qord (serve bs t)"
  unfolding serve_def by (induction bs arbitrary: t) (simp_all add: process_some_qord)

text \<open>The least pending entry of a source never carries its expectation.\<close>

lemma heap_min_append1:
  "heap_min (ms @ [m])
     = (case heap_min ms of
          None \<Rightarrow> Some m
        | Some m' \<Rightarrow> if qmsg_less m m' then Some m else Some m')"
  by (induction ms) (auto simp: qmsg_less_def split: option.splits)

lemma heap_min_snoc:
  "heap_min (ms @ [m]) = Some r \<Longrightarrow> r = m \<or> heap_min ms = Some r"
  by (auto simp: heap_min_append1 split: option.splits if_splits)

lemma head_blocked_cong:
  "recv_counters t' a = recv_counters t a \<Longrightarrow> pending a t' = pending a t
   \<Longrightarrow> head_blocked a t' = head_blocked a t"
  by (simp add: head_blocked_def split: option.splits)

lemma head_blocked_frame [simp]:
  "head_blocked a (dispatch m t) = head_blocked a t"
  "head_blocked a (post_recv_buf k t) = head_blocked a t"
  "a \<noteq> s \<Longrightarrow> head_blocked a (advance s t) = head_blocked a t"
  "src m \<noteq> a \<Longrightarrow> head_blocked a (t\<lparr>q := q t @ [m]\<rparr>) = head_blocked a t"
  by (rule head_blocked_cong; simp)+

lemma drain_head_blocked_same: "head_blocked s (drain s t)"
proof (induction s t rule: drain.induct)
  case (1 s t)
  show ?case
  proof (cases "heap_min (pending s t)")
    case None
    then show ?thesis by (simp add: drain.simps head_blocked_def)
  next
    case (Some m)
    show ?thesis
    proof (cases "count m = recv_counters t s")
      case True
      with Some "1.IH" [OF Some True] show ?thesis
        by (simp add: drain.simps [of s t])
    next
      case False
      with Some show ?thesis by (simp add: drain.simps [of s t] head_blocked_def)
    qed
  qed
qed

lemma drain_head_blocked: "head_blocked a t \<Longrightarrow> head_blocked a (drain s t)"
proof (cases "a = s")
  case True
  then show ?thesis by (simp add: drain_head_blocked_same)
next
  case False
  assume hb: "head_blocked a t"
  from drain_frame [of s t] False
  have "recv_counters (drain s t) a = recv_counters t a" and "pending a (drain s t) = pending a t"
    by simp_all
  from head_blocked_cong [OF this] hb show ?thesis by simp
qed

lemma on_receive_head_blocked:
  assumes "head_blocked a t"
  shows "head_blocked a (on_receive m t)"
proof -
  consider "\<not> is_ordered (attr m)"
    | "is_ordered (attr m)" "count m = recv_counters t (src m)"
    | "is_ordered (attr m)" "count m \<noteq> recv_counters t (src m)"
    by blast
  then show ?thesis
  proof cases
    case 1
    then have "on_receive m t = dispatch m t" by (simp add: on_receive_def)
    with assms show ?thesis by simp
  next
    case 2
    then have eq: "on_receive m t = drain (src m) (advance (src m) (dispatch m t))"
      by (simp add: on_receive_def)
    show ?thesis
    proof (cases "a = src m")
      case True
      then show ?thesis unfolding eq by (simp add: drain_head_blocked_same)
    next
      case False
      with assms have "head_blocked a (advance (src m) (dispatch m t))"
        by simp
      then show ?thesis unfolding eq by (rule drain_head_blocked)
    qed
  next
    case 3
    then have eq: "on_receive m t = t\<lparr>q := q t @ [m]\<rparr>" by (simp add: on_receive_def)
    show ?thesis
    proof (cases "a = src m")
      case True
      show ?thesis
      proof (cases "heap_min (pending a t @ [m])")
        case None
        with True show ?thesis unfolding eq by (simp add: head_blocked_def)
      next
        case (Some r)
        from heap_min_snoc [OF Some] have "r = m \<or> heap_min (pending a t) = Some r" .
        with assms 3 True have "count r \<noteq> recv_counters t a"
          by (auto simp: head_blocked_def split: option.splits)
        with Some True show ?thesis unfolding eq by (simp add: head_blocked_def)
      qed
    next
      case False
      with assms show ?thesis unfolding eq by simp
    qed
  qed
qed

lemma deliver_head_blocked: "head_blocked a t \<Longrightarrow> head_blocked a (deliver x t)"
proof (cases x)
  case (Msg m)
  assume "head_blocked a t"
  with Msg show ?thesis by (simp add: on_receive_head_blocked)
next
  case (Announce k s n)
  assume hb: "head_blocked a t"
  have "recv_counters (deliver x t) a = recv_counters t a" and "pending a (deliver x t) = pending a t"
    unfolding Announce by simp_all
  from head_blocked_cong [OF this] hb show ?thesis by simp
qed

lemma fold_deliver_head_blocked: "head_blocked a t \<Longrightarrow> head_blocked a (fold deliver xs t)"
  by (induction xs arbitrary: t) (simp_all add: deliver_head_blocked)

lemma process_some_head_blocked: "head_blocked a t \<Longrightarrow> head_blocked a (process_some xs t)"
proof -
  assume "head_blocked a t"
  then have hb: "head_blocked a (fold deliver xs t)" by (rule fold_deliver_head_blocked)
  have "recv_counters (process_some xs t) a = recv_counters (fold deliver xs t) a"
    and "pending a (process_some xs t) = pending a (fold deliver xs t)"
    unfolding process_some_def by simp_all
  from head_blocked_cong [OF this] hb show ?thesis by simp
qed

lemma serve_head_blocked: "head_blocked a t \<Longrightarrow> head_blocked a (serve bs t)"
  unfolding serve_def by (induction bs arbitrary: t) (simp_all add: process_some_head_blocked)

text \<open>
  The ordered messages of a source are dispatched with consecutive counters, from its
  expectation on.
\<close>

lemma stamped_append:
  "stamped a c (xs @ ys) \<longleftrightarrow> stamped a c xs \<and> stamped a (c + of_nat (length xs)) ys"
  by (induction xs arbitrary: c) (auto simp: ac_simps)

lemma tracks_same:
  "invoked t' = invoked t \<Longrightarrow> recv_counters t' a = recv_counters t a \<Longrightarrow> tracks a t t'"
  unfolding tracks_def by (intro exI [of _ "[]"]) simp

lemma tracks_trans:
  assumes "tracks a t t1" and "tracks a t1 t2"
  shows "tracks a t t2"
proof -
  from assms(1) obtain X where x: "invoked t1 = invoked t @ X"
    "stamped a (recv_counters t a) (filter (from_ordered a) X)"
    "recv_counters t1 a = recv_counters t a + of_nat (length (filter (from_ordered a) X))"
    unfolding tracks_def by blast
  from assms(2) obtain Y where y: "invoked t2 = invoked t1 @ Y"
    "stamped a (recv_counters t1 a) (filter (from_ordered a) Y)"
    "recv_counters t2 a = recv_counters t1 a + of_nat (length (filter (from_ordered a) Y))"
    unfolding tracks_def by blast
  show ?thesis
    unfolding tracks_def
  proof (intro exI [of _ "X @ Y"] conjI)
    show "invoked t2 = invoked t @ X @ Y" using x(1) y(1) by simp
    show "stamped a (recv_counters t a) (filter (from_ordered a) (X @ Y))"
      using x(2,3) y(2) by (simp add: stamped_append)
    show "recv_counters t2 a
            = recv_counters t a + of_nat (length (filter (from_ordered a) (X @ Y)))"
      using x(3) y(3) by simp
  qed
qed

lemma tracks_dispatch:
  assumes "src m = s" and "s = a \<Longrightarrow> is_ordered (attr m) \<and> count m = recv_counters t a"
    and "invoked t0 = invoked t" and "recv_counters t0 = recv_counters t"
  shows "tracks a t (advance s (dispatch m t0))"
  unfolding tracks_def
proof (intro exI [of _ "[m]"] conjI)
  show "invoked (advance s (dispatch m t0)) = invoked t @ [m]"
    using assms(3) by simp
  show "stamped a (recv_counters t a) (filter (from_ordered a) [m])"
    using assms(1,2) by (auto simp: from_ordered_def)
  show "recv_counters (advance s (dispatch m t0)) a
          = recv_counters t a + of_nat (length (filter (from_ordered a) [m]))"
    using assms(1,2,4) by (auto simp: from_ordered_def)
qed

lemma drain_tracks: "qord t \<Longrightarrow> tracks a t (drain s t)"
proof (induction s t rule: drain.induct)
  case (1 s t)
  show ?case
  proof (cases "heap_min (pending s t)")
    case None
    then have "drain s t = t" by (simp add: drain.simps)
    then show ?thesis by (simp add: tracks_same)
  next
    case (Some m)
    then have mp: "m \<in> set (pending s t)" by (rule heap_min_mem)
    then have sm: "src m = s" and mq: "m \<in> set (q t)"
      by (simp_all add: pending_def)
    from mq "1.prems" have om: "is_ordered (attr m)"
      by (simp add: qord_def list_all_iff)
    show ?thesis
    proof (cases "count m = recv_counters t s")
      case True
      let ?t0 = "t\<lparr>q := remove1 m (q t)\<rparr>"
      let ?t1 = "advance s (dispatch m ?t0)"
      from Some True have eq: "drain s t = drain s ?t1"
        by (simp add: drain.simps [of s t])
      have "tracks a t ?t1"
        by (rule tracks_dispatch) (use sm om True in simp_all)
      moreover from "1.prems" have "qord ?t1" by (simp add: qord_remove1)
      from "1.IH" [OF Some True this] have "tracks a ?t1 (drain s ?t1)" .
      ultimately show ?thesis unfolding eq by (rule tracks_trans)
    next
      case False
      with Some have "drain s t = t" by (simp add: drain.simps [of s t])
      then show ?thesis by (simp add: tracks_same)
    qed
  qed
qed

lemma on_receive_tracks:
  assumes "qord t"
  shows "tracks a t (on_receive m t)"
proof -
  consider "\<not> is_ordered (attr m)"
    | "is_ordered (attr m)" "count m = recv_counters t (src m)"
    | "is_ordered (attr m)" "count m \<noteq> recv_counters t (src m)"
    by blast
  then show ?thesis
  proof cases
    case 1
    then have eq: "on_receive m t = dispatch m t" by (simp add: on_receive_def)
    show ?thesis
      unfolding eq tracks_def
      by (intro exI [of _ "[m]"]) (use 1 in \<open>simp add: from_ordered_def\<close>)
  next
    case 2
    let ?t1 = "advance (src m) (dispatch m t)"
    from 2 have eq: "on_receive m t = drain (src m) ?t1" by (simp add: on_receive_def)
    have "tracks a t ?t1"
      by (rule tracks_dispatch) (use 2 in simp_all)
    moreover from assms have "qord ?t1" by simp
    then have "tracks a ?t1 (drain (src m) ?t1)" by (rule drain_tracks)
    ultimately show ?thesis unfolding eq by (rule tracks_trans)
  next
    case 3
    then have eq: "on_receive m t = t\<lparr>q := q t @ [m]\<rparr>" by (simp add: on_receive_def)
    show ?thesis unfolding eq by (simp add: tracks_same)
  qed
qed

lemma deliver_tracks: "qord t \<Longrightarrow> tracks a t (deliver x t)"
  by (cases x) (simp_all add: on_receive_tracks tracks_same)

lemma fold_deliver_tracks: "qord t \<Longrightarrow> tracks a t (fold deliver xs t)"
proof (induction xs arbitrary: t)
  case Nil
  then show ?case by (simp add: tracks_same)
next
  case (Cons x xs)
  from Cons.prems have "tracks a t (deliver x t)" by (rule deliver_tracks)
  moreover from Cons.prems have "qord (deliver x t)" by (rule deliver_qord)
  then have "tracks a (deliver x t) (fold deliver xs (deliver x t))" by (rule Cons.IH)
  ultimately show ?case by (simp add: tracks_trans)
qed

lemma process_some_tracks: "qord t \<Longrightarrow> tracks a t (process_some xs t)"
proof -
  assume "qord t"
  then have "tracks a t (fold deliver xs t)" by (rule fold_deliver_tracks)
  moreover have "tracks a (fold deliver xs t) (process_some xs t)"
    unfolding process_some_def by (simp add: tracks_same)
  ultimately show ?thesis by (rule tracks_trans)
qed

lemma serve_tracks: "qord t \<Longrightarrow> tracks a t (serve bs t)"
proof (induction bs arbitrary: t)
  case Nil
  then show ?case by (simp add: serve_def tracks_same)
next
  case (Cons b bs)
  from Cons.prems have "tracks a t (process_some b t)" by (rule process_some_tracks)
  moreover from Cons.prems have "qord (process_some b t)" by (rule process_some_qord)
  then have "tracks a (process_some b t) (serve bs (process_some b t))" by (rule Cons.IH)
  ultimately show ?case by (simp add: serve_def tracks_trans)
qed

text \<open>
  C3, amended: let the server start with an empty queue. Every message it has received
  and not dispatched is an entry of the one queue \<^verbatim>\<open>q\<close>, shared by all sources, and every
  entry is an ordered message. The entries are compared by their counters with
  \<^verbatim>\<open>operator<\<close> source by source: the entry of a source with the least counter is never
  left pending when it carries the expectation of the source, and the ordered messages
  of a source are dispatched with consecutive counters from its expectation on, which
  advances by their number. What the server holds and does for a source (its
  expectation, its pending arrivals, the invocations of its messages and their order) is
  the same as if the receives from all other sources had never arrived.
\<close>

theorem shared_queue_sources_independent:
  assumes "q t = []"
  shows "mset (q (serve bs t)) + mset (new_invoked t (serve bs t)) = mset (msgs (concat bs))
       \<and> list_all (\<lambda>m. is_ordered (attr m)) (q (serve bs t))
       \<and> head_blocked a (serve bs t)
       \<and> stamped a (recv_counters t a) (filter (from_ordered a) (new_invoked t (serve bs t)))
       \<and> recv_counters (serve bs t) a
           = recv_counters t a
             + of_nat (length (filter (from_ordered a) (new_invoked t (serve bs t))))
       \<and> view a (serve bs t) = view a (serve (map (filter (from_rank a)) bs) t)"
proof -
  let ?t = "serve bs t"
  from assms have qo: "qord t" by (simp add: qord_def)
  from assms have hb: "head_blocked a t" by (simp add: head_blocked_def pending_def)
  from serve_tracks [OF qo, of a bs] obtain X where x: "invoked ?t = invoked t @ X"
    "stamped a (recv_counters t a) (filter (from_ordered a) X)"
    "recv_counters ?t a = recv_counters t a + of_nat (length (filter (from_ordered a) X))"
    unfolding tracks_def by blast
  from x(1) have n: "new_invoked t ?t = X" by (simp add: new_invoked_def)
  from serve_conserves [of bs t] assms x(1)
  have "mset (q ?t) + mset X = mset (msgs (concat bs))" by simp
  moreover from serve_qord [OF qo, of bs] have "list_all (\<lambda>m. is_ordered (attr m)) (q ?t)"
    by (simp add: qord_def)
  moreover from hb have "head_blocked a ?t" by (rule serve_head_blocked)
  moreover have "view a ?t = view a (serve (map (filter (from_rank a)) bs) t)"
    by (rule serve_view) simp
  ultimately show ?thesis using x(2,3) by (simp add: n)
qed

text \<open>The scenario of section 8 once more: what is queued, dispatched and expected at its end.\<close>

lemma scenario_queue:
  "q task0 = [] \<and> q (serve arrivals0 task0) = [n5]
   \<and> new_invoked task0 (serve arrivals0 task0) = [u0, m0, m1, m2]
   \<and> recv_counters (serve arrivals0 task0) 0 = 3
   \<and> head_blocked 2 (serve arrivals0 task0)
   \<and> view 0 (serve arrivals0 task0) = (3, [], [u0, m0, m1, m2])"
  by (simp add: arrivals0_def task0_def serve_def process_some_def on_receive_def
      m0_def m1_def m2_def u0_def n5_def drain.simps pending_def dispatch_def advance_def
      post_recv_buf_def post_pending_huge_msg_def qmsg_less_def new_invoked_def
      head_blocked_def view_def)

theorem shared_queue_sources_independent_witness:
  "q task0 = []
   \<and> mset (q (serve arrivals0 task0)) + mset (new_invoked task0 (serve arrivals0 task0))
       = mset (msgs (concat arrivals0))
   \<and> q (serve arrivals0 task0) = [n5]
   \<and> new_invoked task0 (serve arrivals0 task0) = [u0, m0, m1, m2]
   \<and> head_blocked 0 (serve arrivals0 task0)
   \<and> stamped 0 (recv_counters task0 0)
         (filter (from_ordered 0) (new_invoked task0 (serve arrivals0 task0)))
   \<and> recv_counters (serve arrivals0 task0) 0 = 3
   \<and> view 0 (serve arrivals0 task0)
       = view 0 (serve (map (filter (from_rank 0)) arrivals0) task0)"
proof -
  have h: "q task0 = []"
    by (simp add: task0_def)
  from shared_queue_sources_independent [OF h, of arrivals0 0] scenario_queue show ?thesis
    by simp
qed

section \<open>Stopping the server\<close>

text \<open>The invariant holds when \<^verbatim>\<open>end\<close> is called and is kept by every turn.\<close>

lemma running_inv: "running s \<Longrightarrow> lc_inv s"
  by (auto simp: running_def lc_inv_def alive_def)

lemma main_step_inv: "lc_inv s \<Longrightarrow> lc_inv (RMI_end_step g s)"
  by (cases "mpc s") (auto simp: lc_inv_def alive_def split: option.splits)

lemma server_step_inv: "lc_inv s \<Longrightarrow> RmiTask_run_step hs th s = Some s' \<Longrightarrow> lc_inv s'"
  by (cases "spc s") (auto simp: lc_inv_def alive_def split: option.splits if_splits)

lemma step_inv: "lc_inv s \<Longrightarrow> step e s = Some s' \<Longrightarrow> lc_inv s'"
  by (cases e) (auto simp del: RMI_end_step.simps RmiTask_run_step.simps intro: main_step_inv server_step_inv)

lemma turns_inv: "lc_inv s \<Longrightarrow> turns es s = Some s' \<Longrightarrow> lc_inv s'"
proof (induction es arbitrary: s)
  case Nil
  then show ?case by simp
next
  case (Cons e es)
  then show ?case
    by (auto simp del: step.simps split: option.splits dest: step_inv)
qed

lemma inv_returned: "lc_inv s \<Longrightarrow> mpc s = E_null \<or> mpc s = E_ret \<Longrightarrow> left_loop s"
  by (cases "spc s") (auto simp: lc_inv_def alive_def left_loop_def)

lemma main_step_server: "spc (RMI_end_step g s) = spc s \<and> handled (RMI_end_step g s) = handled s"
  by (cases "mpc s") simp_all

lemma server_step_left_loop:
  "left_loop s \<Longrightarrow> RmiTask_run_step hs th s = Some s' \<Longrightarrow> left_loop s' \<and> handled s' = handled s"
  by (cases "spc s") (auto simp: left_loop_def)

lemma step_left_loop:
  "left_loop s \<Longrightarrow> step e s = Some s' \<Longrightarrow> left_loop s' \<and> handled s' = handled s"
proof (cases e)
  case (Main g)
  assume "left_loop s" and "step e s = Some s'"
  with Main main_step_server [of g s] show ?thesis
    by (auto simp: left_loop_def simp del: RMI_end_step.simps)
next
  case (Server hs th)
  assume "left_loop s" and "step e s = Some s'"
  with Server show ?thesis
    by (auto simp del: RmiTask_run_step.simps dest: server_step_left_loop)
qed

lemma turns_left_loop:
  "left_loop s \<Longrightarrow> turns es s = Some s' \<Longrightarrow> left_loop s' \<and> handled s' = handled s"
proof (induction es arbitrary: s)
  case Nil
  then show ?case by simp
next
  case (Cons e es)
  from Cons.prems obtain s1 where s1: "step e s = Some s1" and r: "turns es s1 = Some s'"
    by (auto simp del: step.simps split: option.splits)
  from step_left_loop [OF Cons.prems(1) s1] Cons.IH [OF _ r] show ?case
    by simp
qed

text \<open>
  C7: let \<^verbatim>\<open>end\<close> be called on a running server, the threads taking turns in any order. Once
  the main thread is past the wait of \<^verbatim>\<open>exit\<close>, the server has left its loop: it has cleared
  \<^verbatim>\<open>finished\<close> after the loop, or has thrown out of it. From then on no handler is invoked,
  whatever happens next; and when \<^verbatim>\<open>end\<close> has returned, \<^verbatim>\<open>task_ptr\<close> is null.
\<close>

theorem end_waits_for_server:
  assumes "running s0" and "turns es s0 = Some s" and "mpc s = E_null \<or> mpc s = E_ret"
    and "turns es' s = Some s'"
  shows "left_loop s \<and> handled s' = handled s \<and> (mpc s = E_ret \<longrightarrow> \<not> ptr_set s)"
proof -
  from assms(1,2) have inv: "lc_inv s"
    by (blast intro: turns_inv running_inv)
  from inv assms(3) have ll: "left_loop s"
    by (rule inv_returned)
  from turns_left_loop [OF ll assms(4)] ll inv show ?thesis
    by (simp add: lc_inv_def)
qed

lemma turns_sched: "turns sched lc0 = Some lc_end"
  by (simp add: sched_def lc0_def lc_end_def)

lemma turns_after: "turns [Server [u0] False, Main True, Main True] lc_end = Some (lc_end\<lparr>fin := None, spc := R_done\<rparr>)"
  by (simp add: lc_end_def)

theorem end_waits_for_server_witness:
  "running lc0 \<and> turns sched lc0 = Some lc_end \<and> mpc lc_end = E_ret
   \<and> turns [Server [u0] False, Main True, Main True] lc_end
       = Some (lc_end\<lparr>fin := None, spc := R_done\<rparr>)
   \<and> left_loop lc_end
   \<and> handled (lc_end\<lparr>fin := None, spc := R_done\<rparr>) = handled lc_end
   \<and> \<not> ptr_set lc_end"
proof -
  have a: "running lc0"
    by (simp add: running_def lc0_def)
  have c: "mpc lc_end = E_null \<or> mpc lc_end = E_ret"
    by (simp add: lc_end_def)
  from end_waits_for_server [OF a turns_sched c turns_after] a turns_sched turns_after c
  show ?thesis
    by (simp add: lc_end_def)
qed

text \<open>
  C10: with \<^verbatim>\<open>task_ptr\<close> null a call of \<^verbatim>\<open>end\<close> returns at once and changes nothing: from
  the test the main thread goes to the return with every variable as it was; so a second
  call after \<^verbatim>\<open>end\<close> has returned leaves the state it found.
\<close>

theorem end_noop:
  assumes "\<not> ptr_set s"
  shows "(mpc s = E_test \<longrightarrow> step (Main g) s = Some (s\<lparr>mpc := E_ret\<rparr>))
       \<and> (mpc s = E_ret \<longrightarrow> turns [Main g, Main g'] s = Some s)"
  using assms by simp

theorem end_noop_witness:
  "\<not> ptr_set lc_never \<and> mpc lc_never = E_test
   \<and> step (Main True) lc_never = Some (lc_never\<lparr>mpc := E_ret\<rparr>)
   \<and> \<not> ptr_set lc_end \<and> mpc lc_end = E_ret
   \<and> turns [Main False, Main True] lc_end = Some lc_end"
proof -
  have a: "\<not> ptr_set lc_never" and b: "mpc lc_never = E_test"
    by (simp_all add: lc_never_def)
  have c: "\<not> ptr_set lc_end" and d: "mpc lc_end = E_ret"
    by (simp_all add: lc_end_def)
  from end_noop [OF a, of True] b have 1: "step (Main True) lc_never = Some (lc_never\<lparr>mpc := E_ret\<rparr>)"
    by blast
  from end_noop [OF c, of False True] d have 2: "turns [Main False, Main True] lc_end = Some lc_end"
    by blast
  from a b c d 1 2 show ?thesis
    by blast
qed

end
